theory Spec2Isabelle
  imports Complex_Main "HOL-Library.Word"
begin

section \<open>The program: inferring a byte by cache timing\<close>

text \<open>
  A shallow embedding of \<^verbatim>\<open>main.c\<close>. What the C program takes from outside is made
  an explicit parameter, the \<open>platform\<close>: the answers of the allocator, the values
  \<^verbatim>\<open>mach_absolute_time()\<close> returns, the timebase of \<^verbatim>\<open>mach_timebase_info\<close> and the
  rounding of the floating-point unit. Memory is a list of blocks, indexed by block id,
  and a use of a pointer that C leaves undefined is an explicit \<open>stop\<close> value.
\<close>

subsection \<open>Machine types and the tunables\<close>

type_synonym u8 = "8 word"
type_synonym u32 = "32 word"
type_synonym u64 = "64 word"

definition VALUE :: u8 where
  "VALUE = 42"

definition SPACING :: nat where
  "SPACING = 16 * 1024"

definition ITERATIONS :: nat where
  "ITERATIONS = 20"

definition RETRIES_IF_ZERO :: nat where
  "RETRIES_IF_ZERO = 50"

definition CACHE_LINE_SIZE :: nat where
  "CACHE_LINE_SIZE = 64"

definition UINT8_MAX :: nat where
  "UINT8_MAX = 255"

subsection \<open>The probe array: \<^verbatim>\<open>cache_line_t\<close>\<close>

text \<open>
  \<^verbatim>\<open>struct cache_line { uint8_t cacheLine; uint8_t padding[SPACING - 1]; }\<close>: both
  members are bytes, so the struct has no alignment padding; \<open>cacheLine\<close> sits at offset
  0 and the struct is \<open>1 + (SPACING - 1)\<close> bytes long.
\<close>

definition offsetof_cacheLine :: nat where
  "offsetof_cacheLine = 0"

definition sizeof_cache_line_t :: nat where
  "sizeof_cache_line_t = 1 + (SPACING - 1)"

definition NUM_CACHE_LINES :: nat where
  "NUM_CACHE_LINES = UINT8_MAX + 1"

definition ARRAY_SIZE :: nat where
  "ARRAY_SIZE = NUM_CACHE_LINES * sizeof_cache_line_t"

text \<open>Byte offset, from the start of the array, of \<^verbatim>\<open>array[i]\<close> and of \<^verbatim>\<open>array[i].cacheLine\<close>.\<close>

definition slot_offset :: "nat \<Rightarrow> nat" where
  "slot_offset i = i * sizeof_cache_line_t"

definition cacheLine_offset :: "nat \<Rightarrow> nat" where
  "cacheLine_offset i = slot_offset i + offsetof_cacheLine"

text \<open>The bytes \<^verbatim>\<open>array[i]\<close> occupies, and the cache line an address falls in.\<close>

definition slot_range :: "nat \<Rightarrow> nat \<Rightarrow> nat set" where
  "slot_range base i = {base + slot_offset i ..< base + slot_offset i + sizeof_cache_line_t}"

definition line_of :: "nat \<Rightarrow> nat" where
  "line_of a = a div CACHE_LINE_SIZE"

subsection \<open>\<^verbatim>\<open>double\<close>\<close>

text \<open>
  A \<^verbatim>\<open>double\<close> is a finite number, an infinity or a NaN (the two zeros are not told
  apart: they compare equal). Comparisons are exact, so they are those of the reals on
  finite values; a comparison with a NaN is false. An arithmetic operation on finite
  values rounds its exact result with the platform's rounding \<open>rnd\<close>, which may overflow
  to an infinity.
\<close>

datatype dbl = Fin real | PInf | NInf | NaN

fun dlt :: "dbl \<Rightarrow> dbl \<Rightarrow> bool" where
  "dlt (Fin x) (Fin y) = (x < y)"
| "dlt (Fin x) PInf = True"
| "dlt NInf (Fin y) = True"
| "dlt NInf PInf = True"
| "dlt _ _ = False"

fun dle :: "dbl \<Rightarrow> dbl \<Rightarrow> bool" where
  "dle (Fin x) (Fin y) = (x \<le> y)"
| "dle (Fin x) PInf = True"
| "dle NInf (Fin y) = True"
| "dle NInf PInf = True"
| "dle PInf PInf = True"
| "dle NInf NInf = True"
| "dle _ _ = False"

definition DBL_MAX :: dbl where
  "DBL_MAX = Fin ((2 ^ 53 - 1) * 2 ^ 971)"

text \<open>\<^verbatim>\<open>DBL_MIN\<close>, the least positive normal double.\<close>

definition DBL_MIN :: dbl where
  "DBL_MIN = Fin (1 / 2 ^ 1022)"

fun dadd :: "(real \<Rightarrow> dbl) \<Rightarrow> dbl \<Rightarrow> dbl \<Rightarrow> dbl" where
  "dadd rnd (Fin x) (Fin y) = rnd (x + y)"
| "dadd rnd NaN b = NaN"
| "dadd rnd a NaN = NaN"
| "dadd rnd PInf NInf = NaN"
| "dadd rnd NInf PInf = NaN"
| "dadd rnd PInf b = PInf"
| "dadd rnd a PInf = PInf"
| "dadd rnd NInf b = NInf"
| "dadd rnd a NInf = NInf"

fun dmul :: "(real \<Rightarrow> dbl) \<Rightarrow> dbl \<Rightarrow> dbl \<Rightarrow> dbl" where
  "dmul rnd (Fin x) (Fin y) = rnd (x * y)"
| "dmul rnd NaN b = NaN"
| "dmul rnd a NaN = NaN"
| "dmul rnd (Fin x) PInf = (if x = 0 then NaN else if 0 < x then PInf else NInf)"
| "dmul rnd (Fin x) NInf = (if x = 0 then NaN else if 0 < x then NInf else PInf)"
| "dmul rnd PInf (Fin y) = (if y = 0 then NaN else if 0 < y then PInf else NInf)"
| "dmul rnd NInf (Fin y) = (if y = 0 then NaN else if 0 < y then NInf else PInf)"
| "dmul rnd PInf PInf = PInf"
| "dmul rnd NInf NInf = PInf"
| "dmul rnd PInf NInf = NInf"
| "dmul rnd NInf PInf = NInf"

text \<open>\<^verbatim>\<open>(double)w\<close> for a 64-bit unsigned \<open>w\<close>: rounded, since a double has 53 bits.\<close>

definition u64_to_dbl :: "(real \<Rightarrow> dbl) \<Rightarrow> u64 \<Rightarrow> dbl" where
  "u64_to_dbl rnd w = rnd (real (unat w))"

text \<open>
  \<^verbatim>\<open>(double)numer / denom\<close> for 32-bit unsigned operands: both conversions are exact,
  the quotient is rounded, and a zero divisor gives an infinity, or a NaN for \<open>0 / 0\<close>.
\<close>

definition u32_ratio :: "(real \<Rightarrow> dbl) \<Rightarrow> u32 \<Rightarrow> u32 \<Rightarrow> dbl" where
  "u32_ratio rnd numer denom =
     (if denom = 0 then (if numer = 0 then NaN else PInf)
      else rnd (real (unat numer) / real (unat denom)))"

subsection \<open>Memory, the platform and the state\<close>

text \<open>
  Memory is a list of blocks; a block's id is its index in the list, so a block the
  allocator adds is fresh. A pointer is \<open>Null\<close>, or names its numeric address, its
  block and an offset in the block. The block \<^verbatim>\<open>calloc\<close> returns holds doubles (all
  zero), the block \<^verbatim>\<open>malloc\<close> returns is raw storage of the size asked for, and the
  caller's memory is made of blocks of bytes.
\<close>

datatype block = Bytes "u8 list" | Doubles "dbl list" | Raw nat

datatype ptr = Null | Ptr u64 nat nat

datatype access =
  CacheFlush | SecretRead | SecretDependentAccess | TimedAccess | SumUpdate | SumScan

text \<open>
  How a run ends when it does not return: it runs forever, it uses a null pointer (it
  dereferences it, or flushes the cache line at its address), it accesses memory
  outside a block, or it reads \<^verbatim>\<open>bestIndex\<close> before any assignment. The last three are
  undefined behaviour in C, or a fault of the machine.
\<close>

datatype stop = NoReturn | NullDeref access | BadAccess access | UninitialisedRead

record platform =
  fp_round :: "real \<Rightarrow> dbl"
  tbi_numer :: u32
  tbi_denom :: u32
  mach_absolute_time :: "nat \<Rightarrow> u64"
  alloc_result :: "nat \<Rightarrow> u64 option"

text \<open>
  \<open>mach_absolute_time pf k\<close> is what the \<open>k\<close>-th call of \<^verbatim>\<open>mach_absolute_time()\<close>
  returns, and \<open>alloc_result pf k\<close> what the \<open>k\<close>-th call of the allocator returns:
  an address, or \<open>None\<close> for \<^verbatim>\<open>NULL\<close>. The state counts the calls made so far.
\<close>

record state =
  heap :: "block list"
  allocs :: nat
  clock_reads :: nat

definition ptr_address :: "ptr \<Rightarrow> u64" where
  "ptr_address p = (case p of Null \<Rightarrow> 0 | Ptr a b off \<Rightarrow> a)"

definition allocate :: "platform \<Rightarrow> block \<Rightarrow> state \<Rightarrow> ptr \<times> state" where
  "allocate pf blk st =
     (case alloc_result pf (allocs st) of
        None \<Rightarrow> (Null, st\<lparr>allocs := Suc (allocs st)\<rparr>)
      | Some a \<Rightarrow>
          (Ptr a (length (heap st)) 0,
           st\<lparr>heap := heap st @ [blk], allocs := Suc (allocs st)\<rparr>))"

definition calloc_doubles :: "platform \<Rightarrow> nat \<Rightarrow> state \<Rightarrow> ptr \<times> state" where
  "calloc_doubles pf n st = allocate pf (Doubles (replicate n (Fin 0))) st"

definition malloc :: "platform \<Rightarrow> nat \<Rightarrow> state \<Rightarrow> ptr \<times> state" where
  "malloc pf n st = allocate pf (Raw n) st"

text \<open>\<^verbatim>\<open>*addr\<close> for a \<^verbatim>\<open>uint8_t *addr\<close>.\<close>

definition load_u8 :: "access \<Rightarrow> state \<Rightarrow> ptr \<Rightarrow> stop + u8" where
  "load_u8 acc st p =
     (case p of
        Null \<Rightarrow> Inl (NullDeref acc)
      | Ptr a b off \<Rightarrow>
          if b < length (heap st) then
            (case heap st ! b of
               Bytes bs \<Rightarrow> if off < length bs then Inr (bs ! off) else Inl (BadAccess acc)
             | Doubles xs \<Rightarrow> Inl (BadAccess acc)
             | Raw n \<Rightarrow> Inl (BadAccess acc))
          else Inl (BadAccess acc))"

text \<open>
  \<^verbatim>\<open>array[i].cacheLine;\<close> for a \<^verbatim>\<open>volatile cache_line_t *array\<close>: a read whose value is
  dropped. It is defined when the byte read lies inside the array's block.
\<close>

definition touch_cacheLine :: "access \<Rightarrow> state \<Rightarrow> ptr \<Rightarrow> nat \<Rightarrow> stop + unit" where
  "touch_cacheLine acc st array i =
     (case array of
        Null \<Rightarrow> Inl (NullDeref acc)
      | Ptr a b off \<Rightarrow>
          if b < length (heap st) then
            (case heap st ! b of
               Raw n \<Rightarrow> if off + cacheLine_offset i < n then Inr () else Inl (BadAccess acc)
             | Bytes bs \<Rightarrow> Inl (BadAccess acc)
             | Doubles xs \<Rightarrow> Inl (BadAccess acc))
          else Inl (BadAccess acc))"

text \<open>\<^verbatim>\<open>sum[i] += e\<close> for a \<^verbatim>\<open>double *sum\<close>.\<close>

definition add_to_sum :: "(real \<Rightarrow> dbl) \<Rightarrow> state \<Rightarrow> ptr \<Rightarrow> nat \<Rightarrow> dbl \<Rightarrow> stop + state" where
  "add_to_sum rnd st sump i e =
     (case sump of
        Null \<Rightarrow> Inl (NullDeref SumUpdate)
      | Ptr a b off \<Rightarrow>
          if b < length (heap st) then
            (case heap st ! b of
               Doubles xs \<Rightarrow>
                 if off + i < length xs then
                   Inr (st\<lparr>heap := (heap st)
                          [b := Doubles (xs[off + i := dadd rnd (xs ! (off + i)) e])]\<rparr>)
                 else Inl (BadAccess SumUpdate)
             | Bytes bs \<Rightarrow> Inl (BadAccess SumUpdate)
             | Raw n \<Rightarrow> Inl (BadAccess SumUpdate))
          else Inl (BadAccess SumUpdate))"

text \<open>The values \<^verbatim>\<open>sum[0]\<close>, ..., \<^verbatim>\<open>sum[n - 1]\<close>, as the scan for the fastest slot reads them.\<close>

definition load_doubles :: "state \<Rightarrow> ptr \<Rightarrow> nat \<Rightarrow> stop + dbl list" where
  "load_doubles st sump n =
     (case sump of
        Null \<Rightarrow> Inl (NullDeref SumScan)
      | Ptr a b off \<Rightarrow>
          if b < length (heap st) then
            (case heap st ! b of
               Doubles xs \<Rightarrow>
                 if off + n \<le> length xs then Inr (take n (drop off xs))
                 else Inl (BadAccess SumScan)
             | Bytes bs \<Rightarrow> Inl (BadAccess SumScan)
             | Raw n \<Rightarrow> Inl (BadAccess SumScan))
          else Inl (BadAccess SumScan))"

subsection \<open>\<^verbatim>\<open>flush_cache_relaxed\<close>\<close>

text \<open>
  \<^verbatim>\<open>DC CIVAC\<close> is cache maintenance by virtual address: it translates its address as a
  load does, and takes a translation fault on an address that is not mapped. The
  addresses mapped for a pointer are those of the block it points into; none is mapped
  for the null pointer, whose address is 0.
\<close>

definition block_size :: "block \<Rightarrow> nat" where
  "block_size blk = (case blk of Bytes bs \<Rightarrow> length bs | Doubles xs \<Rightarrow> 8 * length xs | Raw n \<Rightarrow> n)"

definition dc_civac :: "state \<Rightarrow> ptr \<Rightarrow> u64 \<Rightarrow> stop + unit" where
  "dc_civac st p x =
     (case p of
        Null \<Rightarrow> Inl (NullDeref CacheFlush)
      | Ptr a b off \<Rightarrow>
          if b < length (heap st) \<and> off + unat (x - a) < block_size (heap st ! b) then Inr ()
          else Inl (BadAccess CacheFlush))"

text \<open>
  The loop issues one \<^verbatim>\<open>DC CIVAC\<close> per cache line of \<open>[start, start + len)\<close>; the
  addresses are 64-bit and wrap around. The model returns the addresses flushed, in
  order, or the fault of the first \<^verbatim>\<open>DC CIVAC\<close> that faults, and \<open>None\<close> when the loop
  does not end. The state of the data cache is not part of the model: the timings it
  causes come from the platform's clock.
\<close>

partial_function (option) flush_loop ::
  "state \<Rightarrow> ptr \<Rightarrow> u64 \<Rightarrow> u64 \<Rightarrow> u64 list \<Rightarrow> (stop + u64 list) option" where
  "flush_loop st p addr limit flushed =
     (if addr < limit then
        (case dc_civac st p addr of
           Inl e \<Rightarrow> Some (Inl e)
         | Inr u \<Rightarrow> flush_loop st p (addr + of_nat CACHE_LINE_SIZE) limit (flushed @ [addr]))
      else Some (Inr flushed))"

definition flush_cache_relaxed :: "state \<Rightarrow> ptr \<Rightarrow> nat \<Rightarrow> (stop + u64 list) option" where
  "flush_cache_relaxed st p len =
     flush_loop st p (ptr_address p) (ptr_address p + of_nat len) []"

subsection \<open>The timer: \<^verbatim>\<open>startTimer\<close> and \<^verbatim>\<open>timeElapsed\<close>\<close>

record timer_t =
  start :: u64
  rate :: dbl

definition startTimer :: "platform \<Rightarrow> state \<Rightarrow> timer_t \<times> state" where
  "startTimer pf st =
     (\<lparr>start = mach_absolute_time pf (clock_reads st),
       rate = u32_ratio (fp_round pf) (tbi_numer pf) (tbi_denom pf)\<rparr>,
      st\<lparr>clock_reads := Suc (clock_reads st)\<rparr>)"

text \<open>
  \<^verbatim>\<open>timeElapsed\<close> gets its handle by address (\<^verbatim>\<open>const timer_t *t\<close>): the handle goes in, and
  comes out, next to the elapsed time, as the call leaves it. The body (line 125) only
  reads \<^verbatim>\<open>t->start\<close> and \<^verbatim>\<open>t->rate\<close>; the subtraction is that of 64-bit unsigned integers.
\<close>

definition timeElapsed :: "platform \<Rightarrow> timer_t \<Rightarrow> state \<Rightarrow> dbl \<times> timer_t \<times> state" where
  "timeElapsed pf t st =
     (dmul (fp_round pf)
        (u64_to_dbl (fp_round pf) (mach_absolute_time pf (clock_reads st) - start t))
        (rate t),
      t,
      st\<lparr>clock_reads := Suc (clock_reads st)\<rparr>)"

subsection \<open>\<^verbatim>\<open>inferb\<close>\<close>

text \<open>The loop that times the access to each cache line (lines 153 to 157).\<close>

function timed_loop :: "platform \<Rightarrow> ptr \<Rightarrow> ptr \<Rightarrow> nat \<Rightarrow> state \<Rightarrow> stop + state" where
  "timed_loop pf array sump i st =
     (if i < NUM_CACHE_LINES then
        (let (t, st1) = startTimer pf st in
         case touch_cacheLine TimedAccess st1 array i of
           Inl e \<Rightarrow> Inl e
         | Inr u \<Rightarrow>
             (let (e, t1, st2) = timeElapsed pf t st1 in
              case add_to_sum (fp_round pf) st2 sump i e of
                Inl e \<Rightarrow> Inl e
              | Inr st3 \<Rightarrow> timed_loop pf array sump (Suc i) st3))
      else Inr st)"
  by pat_completeness auto
termination
  by (relation "measure (\<lambda>(pf, array, sump, i, st). NUM_CACHE_LINES - i)") auto

declare timed_loop.simps [simp del]

text \<open>
  One iteration (lines 141 to 157): allocate the probe array, flush it, make the access
  that depends on the byte at \<open>addr\<close>, time every cache line.
\<close>

definition iteration :: "platform \<Rightarrow> ptr \<Rightarrow> ptr \<Rightarrow> state \<Rightarrow> stop + state" where
  "iteration pf addr sump st =
     (let (array, st1) = malloc pf ARRAY_SIZE st in
      case flush_cache_relaxed st1 array ARRAY_SIZE of
        None \<Rightarrow> Inl NoReturn
      | Some (Inl e) \<Rightarrow> Inl e
      | Some (Inr flushed) \<Rightarrow>
          (case load_u8 SecretRead st1 addr of
             Inl e \<Rightarrow> Inl e
           | Inr v \<Rightarrow>
               (case touch_cacheLine SecretDependentAccess st1 array (unat v) of
                  Inl e \<Rightarrow> Inl e
                | Inr u \<Rightarrow> timed_loop pf array sump 0 st1)))"

function iter_loop :: "platform \<Rightarrow> ptr \<Rightarrow> ptr \<Rightarrow> nat \<Rightarrow> state \<Rightarrow> stop + state" where
  "iter_loop pf addr sump iter st =
     (if iter < ITERATIONS then
        (case iteration pf addr sump st of
           Inl e \<Rightarrow> Inl e
         | Inr st1 \<Rightarrow> iter_loop pf addr sump (Suc iter) st1)
      else Inr st)"
  by pat_completeness auto
termination
  by (relation "measure (\<lambda>(pf, addr, sump, iter, st). ITERATIONS - iter)") auto

declare iter_loop.simps [simp del]

text \<open>
  The scan for the quickest cache line (lines 165 to 170), started with
  \<open>best = DBL_MAX\<close>. \<open>bestIndex\<close> is \<open>None\<close> while the variable has never been
  assigned; the assignment \<^verbatim>\<open>bestIndex = i\<close> converts \<open>i\<close> to a byte.
\<close>

function best_loop :: "dbl list \<Rightarrow> nat \<Rightarrow> dbl \<Rightarrow> u8 option \<Rightarrow> u8 option" where
  "best_loop samples i best bestIndex =
     (if i < NUM_CACHE_LINES then
        (if dlt (samples ! i) best then best_loop samples (Suc i) (samples ! i) (Some (of_nat i))
         else best_loop samples (Suc i) best bestIndex)
      else bestIndex)"
  by pat_completeness auto
termination
  by (relation "measure (\<lambda>(samples, i, best, bestIndex). NUM_CACHE_LINES - i)") auto

declare best_loop.simps [simp del]

text \<open>
  One attempt: the body of the retry loop up to its test (lines 139 to 170). It
  returns the new \<open>bestIndex\<close> and the new state.
\<close>

definition attempt ::
  "platform \<Rightarrow> ptr \<Rightarrow> ptr \<Rightarrow> u8 option \<Rightarrow> state \<Rightarrow> stop + (u8 option \<times> state)" where
  "attempt pf addr sump bestIndex st =
     (case iter_loop pf addr sump 0 st of
        Inl e \<Rightarrow> Inl e
      | Inr st1 \<Rightarrow>
          (case load_doubles st1 sump NUM_CACHE_LINES of
             Inl e \<Rightarrow> Inl e
           | Inr samples \<Rightarrow> Inr (best_loop samples 0 DBL_MAX bestIndex, st1)))"

text \<open>
  The retry loop (lines 137 to 179): after an attempt, \<^verbatim>\<open>if (bestIndex != 0) break;\<close>
  reads \<open>bestIndex\<close>.
\<close>

function try_loop ::
  "platform \<Rightarrow> ptr \<Rightarrow> ptr \<Rightarrow> nat \<Rightarrow> u8 option \<Rightarrow> state \<Rightarrow> stop + (u8 option \<times> state)" where
  "try_loop pf addr sump tr bestIndex st =
     (if tr < RETRIES_IF_ZERO then
        (case attempt pf addr sump bestIndex st of
           Inl e \<Rightarrow> Inl e
         | Inr (bi, st1) \<Rightarrow>
             (case bi of
                None \<Rightarrow> Inl UninitialisedRead
              | Some b \<Rightarrow>
                  if b \<noteq> 0 then Inr (bi, st1)
                  else try_loop pf addr sump (Suc tr) bi st1))
      else Inr (bestIndex, st))"
  by pat_completeness auto
termination
  by (relation "measure (\<lambda>(pf, addr, sump, tr, bestIndex, st). RETRIES_IF_ZERO - tr)") auto

declare try_loop.simps [simp del]

definition inferb :: "platform \<Rightarrow> ptr \<Rightarrow> state \<Rightarrow> stop + (u8 \<times> state)" where
  "inferb pf addr st =
     (let (sump, st1) = calloc_doubles pf NUM_CACHE_LINES st in
      case try_loop pf addr sump 0 None st1 of
        Inl e \<Rightarrow> Inl e
      | Inr (bi, st2) \<Rightarrow>
          (case bi of
             None \<Rightarrow> Inl UninitialisedRead
           | Some b \<Rightarrow> Inr (b, st2)))"

section \<open>Notions used to state the properties\<close>

subsection \<open>The scan\<close>

text \<open>
  \<open>first_min samples i k\<close>: among the slots from \<open>i\<close> on, \<open>k\<close> is the first one
  that holds a number (not a NaN) that no slot is strictly less than. A NaN is neither
  less than nor at most anything, itself included, so \<open>dle x x\<close> says that \<open>x\<close> is
  not a NaN.
\<close>

definition first_min :: "dbl list \<Rightarrow> nat \<Rightarrow> nat \<Rightarrow> bool" where
  "first_min samples i k \<longleftrightarrow>
     i \<le> k \<and> k < NUM_CACHE_LINES \<and>
     dle (samples ! k) (samples ! k) \<and>
     (\<forall>j. i \<le> j \<and> j < NUM_CACHE_LINES \<longrightarrow> \<not> dlt (samples ! j) (samples ! k)) \<and>
     (\<forall>j. i \<le> j \<and> j < k \<longrightarrow> \<not> dle (samples ! j) (samples ! k))"

subsection \<open>The rounding\<close>

text \<open>
  What the monotonicity of the timer asks of the platform's rounding: it is monotone
  (so it never yields a NaN) and it is finite on the range of the finite doubles.
  Rounding to nearest is such a rounding, and so is exact arithmetic, \<open>Fin\<close>.
\<close>

definition monotone_rounding :: "(real \<Rightarrow> dbl) \<Rightarrow> bool" where
  "monotone_rounding rnd \<longleftrightarrow>
     (\<forall>x y. x \<le> y \<longrightarrow> dle (rnd x) (rnd y)) \<and>
     (\<forall>x. dle (Fin \<bar>x\<bar>) DBL_MAX \<longrightarrow> (\<exists>y. rnd x = Fin y))"

text \<open>
  What the formula of the timer asks of it: zero is exact, and on the range of the
  normal doubles the result is finite and within the relative error \<open>eps\<close> of the exact
  number. Rounding to nearest is such a rounding with \<open>eps = 1 / 2 ^ 53\<close>, and exact arithmetic
  with \<open>eps = 0\<close>.
\<close>

definition accurate_rounding :: "real \<Rightarrow> (real \<Rightarrow> dbl) \<Rightarrow> bool" where
  "accurate_rounding eps rnd \<longleftrightarrow>
     0 \<le> eps \<and> eps \<le> 1 / 2 \<and>
     (\<forall>x. x = 0 \<or> (dle DBL_MIN (Fin \<bar>x\<bar>) \<and> dle (Fin \<bar>x\<bar>) DBL_MAX) \<longrightarrow>
          (\<exists>y. rnd x = Fin y \<and> \<bar>y - x\<bar> \<le> eps * \<bar>x\<bar>))"

subsection \<open>What a run leaves unchanged\<close>

text \<open>
  \<open>frame sump st st'\<close>: from \<open>st\<close> to \<open>st'\<close> memory has only grown, and no block of
  \<open>st\<close> has changed but the one \<open>sump\<close> points into.
\<close>

definition ptr_block :: "ptr \<Rightarrow> nat option" where
  "ptr_block p = (case p of Null \<Rightarrow> None | Ptr a b off \<Rightarrow> Some b)"

definition frame :: "ptr \<Rightarrow> state \<Rightarrow> state \<Rightarrow> bool" where
  "frame sump st st' \<longleftrightarrow>
     length (heap st) \<le> length (heap st') \<and>
     (\<forall>b<length (heap st). ptr_block sump \<noteq> Some b \<longrightarrow> heap st' ! b = heap st ! b)"

subsection \<open>The attempts of a run\<close>

text \<open>
  \<open>attempts pf addr sump n s\<close> runs \<open>n\<close> attempts one after the other from \<open>s\<close>,
  whatever they decide; \<open>after_attempts pf addr st n\<close> does so from the state in which
  \<open>inferb\<close> enters its retry loop, and \<open>decision pf addr st k\<close> is the value of
  \<open>bestIndex\<close> after attempt \<open>k\<close> (counted from 0), when the run gets that far.
\<close>

fun attempts ::
  "platform \<Rightarrow> ptr \<Rightarrow> ptr \<Rightarrow> nat \<Rightarrow> u8 option \<times> state \<Rightarrow> stop + (u8 option \<times> state)" where
  "attempts pf addr sump 0 s = Inr s"
| "attempts pf addr sump (Suc n) s =
     (case attempts pf addr sump n s of
        Inl e \<Rightarrow> Inl e
      | Inr (bi, st) \<Rightarrow> attempt pf addr sump bi st)"

definition after_attempts ::
  "platform \<Rightarrow> ptr \<Rightarrow> state \<Rightarrow> nat \<Rightarrow> stop + (u8 option \<times> state)" where
  "after_attempts pf addr st n =
     (let (sump, st1) = calloc_doubles pf NUM_CACHE_LINES st in
      attempts pf addr sump n (None, st1))"

definition decision :: "platform \<Rightarrow> ptr \<Rightarrow> state \<Rightarrow> nat \<Rightarrow> u8 option" where
  "decision pf addr st k =
     (case after_attempts pf addr st (Suc k) of
        Inl e \<Rightarrow> None
      | Inr (bi, st1) \<Rightarrow> bi)"

subsection \<open>The sums in closed form\<close>

text \<open>
  \<open>elapsed_at pf k\<close> is what a timed access measures when its \<open>startTimer\<close> makes
  clock read number \<open>k\<close> and its \<open>timeElapsed\<close> the next one.
  \<open>add_elapsed pf c i xs\<close> is the sample vector after the timed loop has run from slot
  \<open>i\<close> on, entered at clock read number \<open>c\<close> with the vector \<open>xs\<close>;
  \<open>iter_sums pf c n xs\<close> is the vector after \<open>n\<close> iterations, and
  \<open>measured pf p n xs st\<close> the state after them: \<open>n\<close> probe arrays allocated (none of
  them is freed), the sums in block \<open>p\<close> updated, \<open>2 * NUM_CACHE_LINES\<close> clock reads per
  iteration.
\<close>

definition elapsed_at :: "platform \<Rightarrow> nat \<Rightarrow> dbl" where
  "elapsed_at pf k =
     dmul (fp_round pf)
       (u64_to_dbl (fp_round pf) (mach_absolute_time pf (Suc k) - mach_absolute_time pf k))
       (u32_ratio (fp_round pf) (tbi_numer pf) (tbi_denom pf))"

definition add_elapsed :: "platform \<Rightarrow> nat \<Rightarrow> nat \<Rightarrow> dbl list \<Rightarrow> dbl list" where
  "add_elapsed pf c i xs =
     map (\<lambda>j. if i \<le> j \<and> j < NUM_CACHE_LINES
              then dadd (fp_round pf) (xs ! j) (elapsed_at pf (c + 2 * (j - i)))
              else xs ! j)
       [0..<length xs]"

fun iter_sums :: "platform \<Rightarrow> nat \<Rightarrow> nat \<Rightarrow> dbl list \<Rightarrow> dbl list" where
  "iter_sums pf c 0 xs = xs"
| "iter_sums pf c (Suc n) xs = iter_sums pf (c + 2 * NUM_CACHE_LINES) n (add_elapsed pf c 0 xs)"

definition measured :: "platform \<Rightarrow> nat \<Rightarrow> nat \<Rightarrow> dbl list \<Rightarrow> state \<Rightarrow> state" where
  "measured pf p n xs st =
     st\<lparr>heap := (heap st @ replicate n (Raw ARRAY_SIZE))
                 [p := Doubles (iter_sums pf (clock_reads st) n xs)],
        allocs := allocs st + n,
        clock_reads := clock_reads st + 2 * NUM_CACHE_LINES * n\<rparr>"

section \<open>Concrete inputs\<close>

subsection \<open>Sample vectors\<close>

text \<open>
  A sample vector in which slots 5 and 9 are tied below every other slot, and the
  vector \<open>vec f\<close> that holds the finite value \<open>f j\<close> in slot \<open>j\<close>.
\<close>

definition tied_samples :: "dbl list" where
  "tied_samples = (replicate 256 (Fin 7))[5 := Fin 3, 9 := Fin 3]"

definition vec :: "(nat \<Rightarrow> real) \<Rightarrow> dbl list" where
  "vec f = map (\<lambda>j. Fin (f j)) [0..<NUM_CACHE_LINES]"

subsection \<open>The run of \<^verbatim>\<open>main\<close>\<close>

text \<open>
  In \<^verbatim>\<open>main\<close> the byte \<open>VALUE\<close> is the only block of memory, and \<open>inferb\<close> gets its
  address. \<open>sum_ptr\<close> is the pointer \<^verbatim>\<open>calloc\<close> then returns on the platforms below, and
  \<open>run_state n samples\<close> the state after \<open>n\<close> complete attempts that left the sums
  \<open>samples\<close>.
\<close>

definition secret_ptr :: ptr where
  "secret_ptr = Ptr 6174015488 0 0"

definition start_state :: state where
  "start_state = \<lparr>heap = [Bytes [VALUE]], allocs = 0, clock_reads = 0\<rparr>"

definition sum_ptr :: ptr where
  "sum_ptr = Ptr 4294967296 1 0"

definition run_state :: "nat \<Rightarrow> dbl list \<Rightarrow> state" where
  "run_state n samples =
     \<lparr>heap = [Bytes [VALUE], Doubles samples] @ replicate (ITERATIONS * n) (Raw ARRAY_SIZE),
      allocs = 1 + ITERATIONS * n,
      clock_reads = 2 * NUM_CACHE_LINES * ITERATIONS * n\<rparr>"

subsection \<open>Platforms\<close>

text \<open>
  A platform on which every allocation succeeds, the arithmetic is exact, one tick is
  one nanosecond, and the clock advances by one tick per read: every timed access takes
  one tick.
\<close>

definition steady_platform :: platform where
  "steady_platform =
     \<lparr>fp_round = Fin, tbi_numer = 1, tbi_denom = 1,
      mach_absolute_time = (\<lambda>k. of_nat k),
      alloc_result = (\<lambda>k. Some (of_nat (4294967296 + ARRAY_SIZE * k)))\<rparr>"

text \<open>
  The same, but from the second attempt on (clock read 10240) the timed access to every
  slot other than 200 takes two ticks, as \<open>late_profile\<close> says.
\<close>

definition late_signal_platform :: platform where
  "late_signal_platform =
     steady_platform
       \<lparr>mach_absolute_time :=
          (\<lambda>k. of_nat k +
                (if odd k \<and> 10240 \<le> k \<and> (k div 2) mod 256 \<noteq> 200 then 1 else 0))\<rparr>"

definition late_profile :: "nat \<Rightarrow> real" where
  "late_profile j = (if j = 200 then 1 else 2)"

text \<open>
  A platform with exact arithmetic whose timebase is 125 / 3 (the one of a 24 MHz
  clock), at tick 130.
\<close>

definition timebase_platform :: platform where
  "timebase_platform =
     \<lparr>fp_round = Fin, tbi_numer = 125, tbi_denom = 3,
      mach_absolute_time = (\<lambda>k. 130 + of_nat k),
      alloc_result = (\<lambda>k. None)\<rparr>"

text \<open>
  A platform whose timebase has the denominator 0, so that the rate \<open>startTimer\<close>
  captures is \<open>1 / 0\<close>, that is \<open>+\<infinity>\<close>; its clock returns tick 7 at its first two
  reads and tick 12 from then on.
\<close>

definition stalled_platform :: platform where
  "stalled_platform =
     \<lparr>fp_round = Fin, tbi_numer = 1, tbi_denom = 0,
      mach_absolute_time = (\<lambda>k. if k < 2 then 7 else 12),
      alloc_result = (\<lambda>k. None)\<rparr>"


text \<open>
  A platform with a monotonic clock on which the timed access number \<open>n\<close>, counted from
  0 over the whole run, starts at tick \<open>200 * n\<close>. During the first attempt (the first
  5120 timed accesses) the access to slot 0 takes 1 tick and that to any other slot 101
  ticks, as \<open>biased_profile\<close> says; from the second attempt on the access to slot 42
  takes 1 tick and that to any other slot 2 ticks, as \<open>signal_profile\<close> says.
\<close>

definition zero_bias_platform :: platform where
  "zero_bias_platform =
     steady_platform
       \<lparr>mach_absolute_time :=
          (\<lambda>k. of_nat (200 * (k div 2)) +
                (if odd k then
                   (if k div 2 < 5120 then (if k div 2 mod 256 = 0 then 1 else 101)
                    else (if k div 2 mod 256 = 42 then 1 else 2))
                 else 0))\<rparr>"

definition biased_profile :: "nat \<Rightarrow> real" where
  "biased_profile j = (if j = 0 then 1 else 101)"

definition signal_profile :: "nat \<Rightarrow> real" where
  "signal_profile j = (if j = 42 then 1 else 2)"

text \<open>A platform on which \<^verbatim>\<open>calloc\<close> fails, and one on which every \<^verbatim>\<open>malloc\<close> fails.\<close>

definition no_sum_memory :: platform where
  "no_sum_memory =
     steady_platform
       \<lparr>alloc_result :=
          (\<lambda>k. if k = 0 then None else Some (of_nat (4294967296 + ARRAY_SIZE * k)))\<rparr>"

definition no_probe_memory :: platform where
  "no_probe_memory =
     steady_platform\<lparr>alloc_result := (\<lambda>k. if k = 0 then Some 4294967296 else None)\<rparr>"

section \<open>Properties\<close>

subsection \<open>The order of doubles\<close>

lemma dlt_irrefl: "\<not> dlt a a"
  by (cases a) auto

lemma dlt_trans: "dlt a b \<Longrightarrow> dlt b c \<Longrightarrow> dlt a c"
  by (cases a; cases b; cases c) auto

lemma dlt_asym: "dlt a b \<Longrightarrow> \<not> dlt b a"
  by (cases a; cases b) auto

lemma dlt_not_dle: "dlt a b \<Longrightarrow> \<not> dle b a"
  by (cases a; cases b) auto

lemma dle_dlt_trans: "dle a b \<Longrightarrow> dlt b c \<Longrightarrow> dlt a c"
  by (cases a; cases b; cases c) auto

lemma dlt_dle_refl: "dlt a b \<Longrightarrow> dle a a"
  by (cases a; cases b) auto

lemma dle_total: "dle a a \<Longrightarrow> dle b b \<Longrightarrow> dle a b \<or> dlt b a"
  by (cases a; cases b) auto

subsection \<open>The scan for the quickest cache line\<close>


lemma best_loop_cases:
  "(best_loop samples i best bestIndex = bestIndex \<and>
      (\<forall>j. i \<le> j \<and> j < NUM_CACHE_LINES \<longrightarrow> \<not> dlt (samples ! j) best)) \<or>
   (\<exists>k. best_loop samples i best bestIndex = Some (of_nat k) \<and>
      dlt (samples ! k) best \<and> first_min samples i k)"
proof (induction samples i best bestIndex rule: best_loop.induct)
  case (1 samples i best bestIndex)
  show ?case
  proof (cases "i < NUM_CACHE_LINES")
    case False
    then have "best_loop samples i best bestIndex = bestIndex"
      by (subst best_loop.simps) simp
    with False show ?thesis by auto
  next
    case True
    show ?thesis
    proof (cases "dlt (samples ! i) best")
      case lt: True
      have eq: "best_loop samples i best bestIndex =
                best_loop samples (Suc i) (samples ! i) (Some (of_nat i))"
        using True lt by (subst best_loop.simps) simp
      from "1.IH"(1) [OF True lt] show ?thesis
      proof (elim disjE conjE exE)
        assume a: "best_loop samples (Suc i) (samples ! i) (Some (of_nat i)) = Some (of_nat i)"
          and b: "\<forall>j. Suc i \<le> j \<and> j < NUM_CACHE_LINES \<longrightarrow> \<not> dlt (samples ! j) (samples ! i)"
        have "first_min samples i i"
          unfolding first_min_def using True b dlt_irrefl dlt_dle_refl [OF lt]
          by (metis Suc_leI le_neq_implies_less le_refl not_less)
        with a eq lt show ?thesis by auto
      next
        fix k
        assume a: "best_loop samples (Suc i) (samples ! i) (Some (of_nat i)) = Some (of_nat k)"
          and b: "dlt (samples ! k) (samples ! i)"
          and c: "first_min samples (Suc i) k"
        have "first_min samples i k"
          unfolding first_min_def
        proof (intro conjI allI impI)
          show "i \<le> k" using c by (simp add: first_min_def)
          show "k < NUM_CACHE_LINES" using c by (simp add: first_min_def)
          show "dle (samples ! k) (samples ! k)" using c by (simp add: first_min_def)
        next
          fix j assume "i \<le> j \<and> j < NUM_CACHE_LINES"
          then show "\<not> dlt (samples ! j) (samples ! k)"
            using c b dlt_asym by (cases "j = i") (auto simp: first_min_def)
        next
          fix j assume "i \<le> j \<and> j < k"
          then show "\<not> dle (samples ! j) (samples ! k)"
            using c b dlt_not_dle by (cases "j = i") (auto simp: first_min_def)
        qed
        moreover have "dlt (samples ! k) best" using b lt by (rule dlt_trans)
        ultimately show ?thesis using a eq by auto
      qed
    next
      case nlt: False
      have eq: "best_loop samples i best bestIndex = best_loop samples (Suc i) best bestIndex"
        using True nlt by (subst best_loop.simps) simp
      from "1.IH"(2) [OF True nlt] show ?thesis
      proof (elim disjE conjE exE)
        assume a: "best_loop samples (Suc i) best bestIndex = bestIndex"
          and b: "\<forall>j. Suc i \<le> j \<and> j < NUM_CACHE_LINES \<longrightarrow> \<not> dlt (samples ! j) best"
        have "\<forall>j. i \<le> j \<and> j < NUM_CACHE_LINES \<longrightarrow> \<not> dlt (samples ! j) best"
          using b nlt by (metis Suc_leI le_neq_implies_less)
        with a eq show ?thesis by auto
      next
        fix k
        assume a: "best_loop samples (Suc i) best bestIndex = Some (of_nat k)"
          and b: "dlt (samples ! k) best"
          and c: "first_min samples (Suc i) k"
        have "first_min samples i k"
          unfolding first_min_def
        proof (intro conjI allI impI)
          show "i \<le> k" using c by (simp add: first_min_def)
          show "k < NUM_CACHE_LINES" using c by (simp add: first_min_def)
          show "dle (samples ! k) (samples ! k)" using c by (simp add: first_min_def)
        next
          fix j assume "i \<le> j \<and> j < NUM_CACHE_LINES"
          then show "\<not> dlt (samples ! j) (samples ! k)"
            using c b nlt dlt_trans by (cases "j = i") (auto simp: first_min_def)
        next
          fix j assume "i \<le> j \<and> j < k"
          then show "\<not> dle (samples ! j) (samples ! k)"
            using c b nlt dle_dlt_trans by (cases "j = i") (auto simp: first_min_def)
        qed
        with a b eq show ?thesis by auto
      qed
    qed
  qed
qed

lemma first_min_unique:
  assumes "first_min samples i k" "first_min samples i k'"
  shows "k = k'"
proof -
  from assms have n: "dle (samples ! k) (samples ! k)" "dle (samples ! k') (samples ! k')"
    by (simp_all add: first_min_def)
  have "\<not> k < k'"
  proof
    assume "k < k'"
    with assms have "\<not> dle (samples ! k) (samples ! k')" "\<not> dlt (samples ! k') (samples ! k)"
      by (auto simp: first_min_def)
    with dle_total [OF n] show False by simp
  qed
  moreover have "\<not> k' < k"
  proof
    assume "k' < k"
    with assms have "\<not> dle (samples ! k') (samples ! k)" "\<not> dlt (samples ! k) (samples ! k')"
      by (auto simp: first_min_def)
    with dle_total [OF n(2,1)] show False by simp
  qed
  ultimately show ?thesis by simp
qed

lemma best_loop_eq:
  assumes "first_min samples 0 k" "dlt (samples ! k) DBL_MAX"
  shows "best_loop samples 0 DBL_MAX bi = Some (of_nat k)"
proof -
  from assms have "\<not> (\<forall>j. 0 \<le> j \<and> j < NUM_CACHE_LINES \<longrightarrow> \<not> dlt (samples ! j) DBL_MAX)"
    by (auto simp: first_min_def)
  with best_loop_cases [of samples 0 DBL_MAX bi]
  obtain k' where r: "best_loop samples 0 DBL_MAX bi = Some (of_nat k')"
    and "dlt (samples ! k') DBL_MAX" "first_min samples 0 k'"
    by blast
  with assms have "k = k'" by (intro first_min_unique [of samples 0 k k'])
  with r show ?thesis by simp
qed

text \<open>
  What the scan selects when it selects: whenever some slot of the sample vector is
  strictly below \<open>DBL_MAX\<close>, the value the scan starts from, the scan assigns to
  \<open>bestIndex\<close> the one index \<open>k\<close> with \<open>first_min samples 0 k\<close>, the lowest among the
  slots holding the least number. The comparison is a strict less-than, so among tied
  minimal slots the first wins: when slots 5 and 9 are tied and every other slot is
  strictly greater, the index selected is 5.
\<close>

lemma best_loop_first_minimum:
  assumes "\<exists>i<NUM_CACHE_LINES. dlt (samples ! i) DBL_MAX"
  shows "\<exists>k. best_loop samples 0 DBL_MAX bestIndex = Some (of_nat k) \<and>
             first_min samples 0 k \<and> (\<forall>k'. first_min samples 0 k' \<longrightarrow> k' = k) \<and>
             (samples ! 5 = samples ! 9 \<and>
              (\<forall>j<NUM_CACHE_LINES. j \<noteq> 5 \<and> j \<noteq> 9 \<longrightarrow> dlt (samples ! 5) (samples ! j))
              \<longrightarrow> k = 5 \<and> best_loop samples 0 DBL_MAX bestIndex = Some 5)"
proof -
  from assms best_loop_cases [of samples 0 DBL_MAX bestIndex]
  obtain k where res: "best_loop samples 0 DBL_MAX bestIndex = Some (of_nat k)"
    and lt: "dlt (samples ! k) DBL_MAX" and fm: "first_min samples 0 k"
    by auto
  have u: "\<forall>k'. first_min samples 0 k' \<longrightarrow> k' = k"
    using fm by (auto intro: first_min_unique)
  have k5: "k = 5" if tie: "samples ! 5 = samples ! 9"
    and others: "\<forall>j<NUM_CACHE_LINES. j \<noteq> 5 \<and> j \<noteq> 9 \<longrightarrow> dlt (samples ! 5) (samples ! j)"
  proof -
    have kN: "k < NUM_CACHE_LINES" using fm by (simp add: first_min_def)
    have five: "(5::nat) < NUM_CACHE_LINES" by (simp add: NUM_CACHE_LINES_def UINT8_MAX_def)
    have "\<not> dlt (samples ! 5) (samples ! k)"
      using fm five by (simp add: first_min_def)
    with others kN have k59: "k = 5 \<or> k = 9" by blast
    have "k \<noteq> 9"
    proof
      assume k9: "k = 9"
      with fm have "\<not> dle (samples ! 5) (samples ! 9)" by (simp add: first_min_def)
      moreover have "dle (samples ! 9) (samples ! 9)"
        using lt k9 by (cases "samples ! 9") (auto simp: DBL_MAX_def)
      ultimately show False using tie by simp
    qed
    with k59 show ?thesis by simp
  qed
  have tied: "samples ! 5 = samples ! 9 \<and>
              (\<forall>j<NUM_CACHE_LINES. j \<noteq> 5 \<and> j \<noteq> 9 \<longrightarrow> dlt (samples ! 5) (samples ! j))
              \<longrightarrow> k = 5 \<and> best_loop samples 0 DBL_MAX bestIndex = Some 5"
  proof (intro impI)
    assume "samples ! 5 = samples ! 9 \<and>
              (\<forall>j<NUM_CACHE_LINES. j \<noteq> 5 \<and> j \<noteq> 9 \<longrightarrow> dlt (samples ! 5) (samples ! j))"
    then have "k = 5" using k5 by blast
    with res show "k = 5 \<and> best_loop samples 0 DBL_MAX bestIndex = Some 5" by simp
  qed
  show ?thesis by (intro exI [of _ k] conjI res fm u tied)
qed

lemma tied_samples_nth:
  "j < 256 \<Longrightarrow> tied_samples ! j = (if j = 5 \<or> j = 9 then Fin 3 else Fin 7)"
  by (auto simp: tied_samples_def nth_list_update)

text \<open>At a vector holding 3 in slots 5 and 9 and 7 elsewhere, the scan selects 5.\<close>

lemma best_loop_tied_samples:
  "(\<exists>i<NUM_CACHE_LINES. dlt (tied_samples ! i) DBL_MAX) \<and>
   tied_samples ! 5 = tied_samples ! 9 \<and>
   best_loop tied_samples 0 DBL_MAX None = Some 5"
proof -
  have N: "NUM_CACHE_LINES = 256" by (simp add: NUM_CACHE_LINES_def UINT8_MAX_def)
  have a: "\<exists>i<NUM_CACHE_LINES. dlt (tied_samples ! i) DBL_MAX"
    by (rule exI [of _ 0]) (simp add: N tied_samples_nth DBL_MAX_def)
  have b: "tied_samples ! 5 = tied_samples ! 9" by (simp add: tied_samples_nth)
  have c: "\<forall>j<NUM_CACHE_LINES. j \<noteq> 5 \<and> j \<noteq> 9 \<longrightarrow> dlt (tied_samples ! 5) (tied_samples ! j)"
    by (simp add: N tied_samples_nth)
  from best_loop_first_minimum [OF a, of None] b c
  have "best_loop tied_samples 0 DBL_MAX None = Some 5" by blast
  with a b show ?thesis by simp
qed

subsection \<open>The layout of the probe array\<close>

text \<open>
  Claim C6. The probe array has 256 slots, as many as there are byte values. For two
  distinct slots \<open>i\<close> and \<open>j\<close>, the distinguishing byte of slot \<open>i\<close> is at offset
  \<open>i * SPACING\<close>, the two distinguishing bytes are at least \<open>SPACING\<close> bytes apart, the
  address ranges of the two slots are disjoint and lie inside the array, and the two
  distinguishing bytes fall in different cache lines, wherever the array starts.
\<close>

theorem probe_array_slots_disjoint:
  "NUM_CACHE_LINES = card (UNIV :: u8 set) \<and> NUM_CACHE_LINES = 256 \<and>
   (\<forall>i j. i < NUM_CACHE_LINES \<and> j < NUM_CACHE_LINES \<and> i \<noteq> j \<longrightarrow>
      cacheLine_offset i = i * SPACING \<and>
      int SPACING \<le> \<bar>int (cacheLine_offset i) - int (cacheLine_offset j)\<bar> \<and>
      slot_range base i \<inter> slot_range base j = {} \<and>
      slot_range base i \<subseteq> {base ..< base + ARRAY_SIZE} \<and>
      line_of (base + cacheLine_offset i) \<noteq> line_of (base + cacheLine_offset j))"
proof (intro conjI allI impI)
  show "NUM_CACHE_LINES = card (UNIV :: u8 set)"
    by (simp add: NUM_CACHE_LINES_def UINT8_MAX_def card_word)
  show "NUM_CACHE_LINES = 256" by (simp add: NUM_CACHE_LINES_def UINT8_MAX_def)
next
  fix i j
  assume h: "i < NUM_CACHE_LINES \<and> j < NUM_CACHE_LINES \<and> i \<noteq> j"
  then have ij: "i < 256" "j < 256" "i \<noteq> j"
    by (simp_all add: NUM_CACHE_LINES_def UINT8_MAX_def)
  show "cacheLine_offset i = i * SPACING"
    by (simp add: cacheLine_offset_def slot_offset_def offsetof_cacheLine_def
        sizeof_cache_line_t_def SPACING_def)
  show "int SPACING \<le> \<bar>int (cacheLine_offset i) - int (cacheLine_offset j)\<bar>"
    using ij by (simp add: cacheLine_offset_def slot_offset_def offsetof_cacheLine_def
        sizeof_cache_line_t_def SPACING_def; arith)
  show "slot_range base i \<inter> slot_range base j = {}"
    using ij by (auto simp: slot_range_def slot_offset_def sizeof_cache_line_t_def SPACING_def)
  show "slot_range base i \<subseteq> {base ..< base + ARRAY_SIZE}"
    using ij by (auto simp: slot_range_def slot_offset_def sizeof_cache_line_t_def SPACING_def
        ARRAY_SIZE_def NUM_CACHE_LINES_def UINT8_MAX_def)
  show "line_of (base + cacheLine_offset i) \<noteq> line_of (base + cacheLine_offset j)"
    using ij by (simp add: line_of_def cacheLine_offset_def slot_offset_def
        offsetof_cacheLine_def sizeof_cache_line_t_def SPACING_def CACHE_LINE_SIZE_def; arith)
qed

text \<open>The theorem at slots 5 and 9 of an array that starts at address 4096.\<close>

theorem probe_array_slots_disjoint_witness:
  "(5::nat) < NUM_CACHE_LINES \<and> (9::nat) < NUM_CACHE_LINES \<and>
   cacheLine_offset 5 = 5 * SPACING \<and>
   int SPACING \<le> \<bar>int (cacheLine_offset 5) - int (cacheLine_offset 9)\<bar> \<and>
   slot_range 4096 5 \<inter> slot_range 4096 9 = {} \<and>
   slot_range 4096 5 \<subseteq> {4096 ..< 4096 + ARRAY_SIZE} \<and>
   line_of (4096 + cacheLine_offset 5) \<noteq> line_of (4096 + cacheLine_offset 9)"
proof -
  have h: "(5::nat) < NUM_CACHE_LINES \<and> (9::nat) < NUM_CACHE_LINES \<and> (5::nat) \<noteq> 9"
    by (simp add: NUM_CACHE_LINES_def UINT8_MAX_def)
  from probe_array_slots_disjoint [of 4096] have
    "\<forall>i j. i < NUM_CACHE_LINES \<and> j < NUM_CACHE_LINES \<and> i \<noteq> j \<longrightarrow>
      cacheLine_offset i = i * SPACING \<and>
      int SPACING \<le> \<bar>int (cacheLine_offset i) - int (cacheLine_offset j)\<bar> \<and>
      slot_range 4096 i \<inter> slot_range 4096 j = {} \<and>
      slot_range 4096 i \<subseteq> {4096 ..< 4096 + ARRAY_SIZE} \<and>
      line_of (4096 + cacheLine_offset i) \<noteq> line_of (4096 + cacheLine_offset j)"
    by blast
  from this [rule_format, OF h] h show ?thesis by blast
qed

subsection \<open>The timer\<close>

lemma accurate_rounding_Fin: "accurate_rounding 0 Fin"
  by (simp add: accurate_rounding_def)

lemma monotone_rounding_Fin: "monotone_rounding Fin"
  by (simp add: monotone_rounding_def)

lemma relative_error_bounds:
  fixes y d eps :: real
  assumes "\<bar>y - d\<bar> \<le> eps * d" and "eps \<le> 1 / 2" and "0 \<le> d"
  shows "d / 2 \<le> y \<and> y \<le> d + eps * d \<and> y \<le> 3 * d / 2"
proof -
  from assms(2,3) have "eps * d \<le> (1 / 2) * d" by (rule mult_right_mono)
  with assms(1) show ?thesis by (simp add: abs_le_iff)
qed

lemma accurate_zero:
  assumes "accurate_rounding eps rnd"
  shows "rnd 0 = Fin 0"
proof -
  from assms have "\<exists>y. rnd 0 = Fin y \<and> \<bar>y - 0\<bar> \<le> eps * \<bar>0\<bar>"
    unfolding accurate_rounding_def by blast
  then show ?thesis by auto
qed

lemma accurate_normal:
  assumes "accurate_rounding eps rnd" and "1 / 2 ^ 1022 \<le> \<bar>x\<bar>" and "\<bar>x\<bar> \<le> (2 ^ 53 - 1) * 2 ^ 971"
  shows "\<exists>y. rnd x = Fin y \<and> \<bar>y - x\<bar> \<le> eps * \<bar>x\<bar>"
proof -
  from assms(2,3) have "dle DBL_MIN (Fin \<bar>x\<bar>) \<and> dle (Fin \<bar>x\<bar>) DBL_MAX"
    by (simp only: DBL_MIN_def DBL_MAX_def dle.simps)
  with assms(1) show ?thesis unfolding accurate_rounding_def by blast
qed

lemma u64_to_dbl_accurate:
  assumes "accurate_rounding eps rnd"
  shows "\<exists>y. u64_to_dbl rnd w = Fin y \<and> \<bar>y - real (unat w)\<bar> \<le> eps * real (unat w)"
proof (cases "unat w = 0")
  case True
  then show ?thesis by (simp add: u64_to_dbl_def accurate_zero [OF assms])
next
  case False
  define d where "d = real (unat w)"
  from False have "1 \<le> unat w" by simp
  then have "real 1 \<le> real (unat w)" by (simp only: of_nat_le_iff)
  then have d1: "1 \<le> d" by (simp add: d_def)
  have "unat w < 2 ^ 64" using unsigned_less [of w, where 'a = nat] by simp
  then have "real (unat w) < real (2 ^ 64)" by (simp only: of_nat_less_iff)
  then have d2: "d < 2 ^ 64" by (simp add: d_def)
  have lo: "1 / 2 ^ 1022 \<le> \<bar>d\<bar>" using d1 by simp
  have "(2 :: real) ^ 64 \<le> (2 ^ 53 - 1) * 2 ^ 971" by simp
  with d1 d2 have hi: "\<bar>d\<bar> \<le> (2 ^ 53 - 1) * 2 ^ 971" by simp
  from accurate_normal [OF assms lo hi] d1 show ?thesis
    unfolding u64_to_dbl_def d_def [symmetric] by simp
qed

lemma u64_finite:
  assumes "monotone_rounding rnd"
  shows "\<exists>y. u64_to_dbl rnd w = Fin y"
proof -
  have "unat w < 2 ^ 64" using unsigned_less [of w, where 'a = nat] by simp
  then have "real (unat w) < real (2 ^ 64)" by (simp only: of_nat_less_iff)
  also have "real (2 ^ 64) \<le> (2 ^ 53 - 1) * 2 ^ 971" by simp
  finally have "real (unat w) \<le> (2 ^ 53 - 1) * 2 ^ 971" by (rule less_imp_le)
  moreover have "\<bar>real (unat w)\<bar> = real (unat w)" by (rule abs_of_nat)
  ultimately have "dle (Fin \<bar>real (unat w)\<bar>) DBL_MAX" by (simp only: DBL_MAX_def dle.simps)
  with assms show ?thesis unfolding monotone_rounding_def u64_to_dbl_def by blast
qed

lemma u32_ratio_accurate:
  assumes "accurate_rounding eps rnd" and "denom \<noteq> 0"
  shows "\<exists>q. u32_ratio rnd numer denom = Fin q \<and>
             \<bar>q - real (unat numer) / real (unat denom)\<bar>
               \<le> eps * (real (unat numer) / real (unat denom))"
proof (cases "unat numer = 0")
  case True
  with assms(2) show ?thesis by (simp add: u32_ratio_def accurate_zero [OF assms(1)])
next
  case False
  define n where "n = real (unat numer)"
  define d where "d = real (unat denom)"
  from False have "1 \<le> unat numer" by simp
  then have "real 1 \<le> real (unat numer)" by (simp only: of_nat_le_iff)
  then have n1: "1 \<le> n" by (simp add: n_def)
  from assms(2) have "unat denom \<noteq> 0" by (simp add: unat_eq_0)
  then have "1 \<le> unat denom" by simp
  then have "real 1 \<le> real (unat denom)" by (simp only: of_nat_le_iff)
  then have d1: "1 \<le> d" by (simp add: d_def)
  have "unat numer < 2 ^ 32" using unsigned_less [of numer, where 'a = nat] by simp
  then have "real (unat numer) < real (2 ^ 32)" by (simp only: of_nat_less_iff)
  then have n2: "n < 2 ^ 32" by (simp add: n_def)
  have "unat denom < 2 ^ 32" using unsigned_less [of denom, where 'a = nat] by simp
  then have "real (unat denom) < real (2 ^ 32)" by (simp only: of_nat_less_iff)
  then have d2: "d < 2 ^ 32" by (simp add: d_def)
  have pos: "0 < n / d" using n1 d1 by simp
  have "1 / 2 ^ 32 \<le> 1 / d" using d1 d2 by (simp add: field_simps)
  also have "1 / d \<le> n / d" using n1 d1 by (simp add: field_simps)
  finally have "1 / 2 ^ 32 \<le> n / d" .
  moreover have "(1 :: real) / 2 ^ 1022 \<le> 1 / 2 ^ 32" by simp
  ultimately have "1 / 2 ^ 1022 \<le> n / d" by (rule order_trans [rotated])
  moreover have an: "\<bar>n / d\<bar> = n / d" using pos by (simp only: abs_of_pos)
  ultimately have lo: "1 / 2 ^ 1022 \<le> \<bar>n / d\<bar>" by (simp only:)
  have "n / d \<le> n" using n1 d1 by (simp add: field_simps)
  with n2 have "n / d \<le> 2 ^ 32" by simp
  moreover have "(2 :: real) ^ 32 \<le> (2 ^ 53 - 1) * 2 ^ 971" by simp
  ultimately have "n / d \<le> (2 ^ 53 - 1) * 2 ^ 971" by (rule order_trans)
  then have hi: "\<bar>n / d\<bar> \<le> (2 ^ 53 - 1) * 2 ^ 971" by (simp only: an)
  from accurate_normal [OF assms(1) lo hi] obtain q where
    q: "rnd (n / d) = Fin q" and "\<bar>q - n / d\<bar> \<le> eps * \<bar>n / d\<bar>"
    by blast
  then have qe: "\<bar>q - n / d\<bar> \<le> eps * (n / d)" by (simp only: an)
  have "u32_ratio rnd numer denom = rnd (n / d)"
    using assms(2) by (simp add: u32_ratio_def n_def d_def)
  with q have "u32_ratio rnd numer denom = Fin q" by (simp only:)
  with qe show ?thesis unfolding n_def d_def by (intro exI conjI)
qed

lemma product_accurate:
  assumes acc: "accurate_rounding eps rnd"
    and y1: "\<bar>y1 - d\<bar> \<le> eps * d"
    and d: "d = 0 \<or> 1 \<le> d" "d < 2 ^ 64"
    and r: "r = 0 \<or> (1 / 2 ^ 900 \<le> \<bar>r\<bar> \<and> \<bar>r\<bar> \<le> 2 ^ 900)"
  shows "\<exists>y. rnd (y1 * r) = Fin y \<and> \<bar>y - d * r\<bar> \<le> (2 * eps + eps * eps) * \<bar>d * r\<bar>"
proof -
  from acc have e0: "0 \<le> eps" and e1: "eps \<le> 1 / 2" by (simp_all add: accurate_rounding_def)
  show ?thesis
  proof (cases "d = 0 \<or> r = 0")
    case True
    with y1 have "y1 * r = 0" by auto
    with True show ?thesis by (auto simp: accurate_zero [OF acc])
  next
    case False
    with d r have d1: "1 \<le> d" and rl: "1 / 2 ^ 900 \<le> \<bar>r\<bar>" and rh: "\<bar>r\<bar> \<le> 2 ^ 900"
      by auto
    define A where "A = \<bar>r\<bar>"
    have A0: "0 \<le> A" by (simp add: A_def)
    from d1 have "0 \<le> d" by simp
    from relative_error_bounds [OF y1 e1 this]
    have ylo: "d / 2 \<le> y1" and yhi: "y1 \<le> d + eps * d" and yh: "y1 \<le> 3 * d / 2"
      by simp_all
    from ylo d1 have ypos: "1 / 2 \<le> y1" by linarith
    from yh d(2) have yhi2: "y1 \<le> 3 * 2 ^ 63" by simp
    have abs: "\<bar>y1 * r\<bar> = y1 * A" using ypos by (simp add: abs_mult A_def)
    have "(1 / 2) * (1 / 2 ^ 900) \<le> y1 * A"
      unfolding A_def using ypos rl by (intro mult_mono) simp_all
    moreover have "(1 :: real) / 2 ^ 1022 \<le> (1 / 2) * (1 / 2 ^ 900)" by simp
    ultimately have lo: "1 / 2 ^ 1022 \<le> \<bar>y1 * r\<bar>" unfolding abs by simp
    have "y1 * A \<le> (3 * 2 ^ 63) * 2 ^ 900"
      unfolding A_def using ypos yhi2 rh by (intro mult_mono) simp_all
    moreover have "(3 * 2 ^ 63) * 2 ^ 900 \<le> ((2 :: real) ^ 53 - 1) * 2 ^ 971" by simp
    ultimately have hi: "\<bar>y1 * r\<bar> \<le> (2 ^ 53 - 1) * 2 ^ 971" unfolding abs by simp
    from accurate_normal [OF acc lo hi] obtain y where
      y: "rnd (y1 * r) = Fin y" and ye: "\<bar>y - y1 * r\<bar> \<le> eps * (y1 * A)"
      unfolding abs by blast
    have "y1 * A \<le> (d + eps * d) * A" using yhi A0 by (rule mult_right_mono)
    then have "eps * (y1 * A) \<le> eps * ((d + eps * d) * A)" using e0 by (rule mult_left_mono)
    with ye have 1: "\<bar>y - y1 * r\<bar> \<le> eps * ((d + eps * d) * A)" by simp
    have "\<bar>y1 * r - d * r\<bar> = \<bar>y1 - d\<bar> * A"
      by (simp add: A_def abs_mult [symmetric] left_diff_distrib)
    also have "\<dots> \<le> (eps * d) * A" using y1 A0 by (rule mult_right_mono)
    finally have 2: "\<bar>y1 * r - d * r\<bar> \<le> (eps * d) * A" .
    have "\<bar>y - d * r\<bar> \<le> \<bar>y - y1 * r\<bar> + \<bar>y1 * r - d * r\<bar>" by simp
    with 1 2 have "\<bar>y - d * r\<bar> \<le> eps * ((d + eps * d) * A) + (eps * d) * A" by simp
    also have "\<dots> = (2 * eps + eps * eps) * (d * A)" by (simp add: algebra_simps)
    also have "d * A = \<bar>d * r\<bar>" using d1 by (simp add: abs_mult A_def)
    finally show ?thesis using y by blast
  qed
qed

text \<open>
  Claim C7. Let \<open>d\<close> be the number of ticks from \<open>start h\<close> to the current tick count,
  as the 64-bit subtraction gives it (the plain difference when the clock has not gone
  back behind \<open>start h\<close>). On a floating-point unit whose relative error is at most
  \<open>eps\<close>, for every timer handle \<open>h\<close>:

    \<^item> \<open>startTimer\<close> captures the current tick count and, when the denominator of the
      timebase is not 0, a rate within \<open>eps\<close> of \<open>numer / denom\<close> (a zero denominator
      gives the rate \<open>+\<infinity>\<close>, or NaN for \<open>0 / 0\<close>);
    \<^item> when \<open>rate h\<close> is a finite \<open>r\<close>, \<open>timeElapsed\<close> returns the rounded product of
      \<open>r\<close> and the converted \<open>d\<close>, and that is a finite number within the relative
      error \<open>2 * eps + eps\<^sup>2\<close> of \<open>d * r\<close> when \<open>r\<close> is 0 or of a magnitude between
      \<open>2\<^sup>-\<^sup>9\<^sup>0\<^sup>0\<close> and \<open>2\<^sup>9\<^sup>0\<^sup>0\<close>; with exact arithmetic (\<open>eps = 0\<close>) it is \<open>d * r\<close>;
    \<^item> when \<open>rate h\<close> is infinite, it returns that infinity, or NaN when \<open>d = 0\<close>, and
      when \<open>rate h\<close> is NaN it returns NaN, as the product in doubles is;
    \<^item> the query leaves the handle and the memory as they were, and has read the clock
      once: the next query obeys the same formula at the next tick count.
\<close>

theorem timeElapsed_formula:
  assumes "accurate_rounding eps (fp_round pf)"
  shows
  "start (fst (startTimer pf st)) = mach_absolute_time pf (clock_reads st) \<and>
   (tbi_denom pf \<noteq> 0 \<longrightarrow>
      (\<exists>q. rate (fst (startTimer pf st)) = Fin q \<and>
           \<bar>q - real (unat (tbi_numer pf)) / real (unat (tbi_denom pf))\<bar>
             \<le> eps * (real (unat (tbi_numer pf)) / real (unat (tbi_denom pf))))) \<and>
   (tbi_denom pf = 0 \<longrightarrow>
      rate (fst (startTimer pf st)) = (if tbi_numer pf = 0 then NaN else PInf)) \<and>
   (start h \<le> mach_absolute_time pf (clock_reads st) \<longrightarrow>
      unat (mach_absolute_time pf (clock_reads st) - start h) =
        unat (mach_absolute_time pf (clock_reads st)) - unat (start h)) \<and>
   (\<forall>r. rate h = Fin r \<longrightarrow>
      (\<exists>y1. \<bar>y1 - real (unat (mach_absolute_time pf (clock_reads st) - start h))\<bar>
               \<le> eps * real (unat (mach_absolute_time pf (clock_reads st) - start h)) \<and>
            fst (timeElapsed pf h st) = fp_round pf (y1 * r)) \<and>
      (r = 0 \<or> (1 / 2 ^ 900 \<le> \<bar>r\<bar> \<and> \<bar>r\<bar> \<le> 2 ^ 900) \<longrightarrow>
         (\<exists>y. fst (timeElapsed pf h st) = Fin y \<and>
              \<bar>y - real (unat (mach_absolute_time pf (clock_reads st) - start h)) * r\<bar>
                \<le> (2 * eps + eps * eps) *
                   \<bar>real (unat (mach_absolute_time pf (clock_reads st) - start h)) * r\<bar>))) \<and>
   (rate h = PInf \<longrightarrow>
      fst (timeElapsed pf h st) =
        (if mach_absolute_time pf (clock_reads st) = start h then NaN else PInf)) \<and>
   (rate h = NInf \<longrightarrow>
      fst (timeElapsed pf h st) =
        (if mach_absolute_time pf (clock_reads st) = start h then NaN else NInf)) \<and>
   (rate h = NaN \<longrightarrow> fst (timeElapsed pf h st) = NaN) \<and>
   fst (snd (timeElapsed pf h st)) = h \<and>
   heap (snd (snd (timeElapsed pf h st))) = heap st \<and>
   clock_reads (snd (snd (timeElapsed pf h st))) = Suc (clock_reads st)"
proof -
  let ?now = "mach_absolute_time pf (clock_reads st)"
  let ?w = "?now - start h"
  let ?d = "real (unat ?w)"
  from u64_to_dbl_accurate [OF assms, of ?w] obtain y1 where
    c: "u64_to_dbl (fp_round pf) ?w = Fin y1" and y1: "\<bar>y1 - ?d\<bar> \<le> eps * ?d"
    by blast
  from assms have e1: "eps \<le> 1 / 2" by (simp add: accurate_rounding_def)
  have d0: "0 \<le> ?d" by (rule of_nat_0_le_iff)
  have w: "unat ?w = 0 \<longleftrightarrow> ?now = start h" by (simp add: unat_eq_0)
  have sign: "(y1 = 0 \<longleftrightarrow> ?now = start h) \<and> (0 < y1 \<longleftrightarrow> ?now \<noteq> start h)"
  proof (cases "unat ?w = 0")
    case True
    with y1 have "y1 = 0" by simp
    with True w show ?thesis by simp
  next
    case False
    then have "1 \<le> unat ?w" by simp
    then have "real 1 \<le> ?d" by (simp only: of_nat_le_iff)
    then have d1: "1 \<le> ?d" by simp
    from relative_error_bounds [OF y1 e1 d0] have "?d / 2 \<le> y1" by (rule conjunct1)
    with d1 have "0 < y1" by linarith
    with False w show ?thesis by simp
  qed
  have dr: "?d = 0 \<or> 1 \<le> ?d" "?d < 2 ^ 64"
  proof -
    have "unat ?w = 0 \<or> 1 \<le> unat ?w" by auto
    then have "real (unat ?w) = real 0 \<or> real 1 \<le> real (unat ?w)"
      by (simp only: of_nat_le_iff of_nat_eq_iff)
    then show "?d = 0 \<or> 1 \<le> ?d" by simp
    have "unat ?w < 2 ^ 64" using unsigned_less [of ?w, where 'a = nat] by simp
    then have "real (unat ?w) < real (2 ^ 64)" by (simp only: of_nat_less_iff)
    then show "?d < 2 ^ 64" by simp
  qed
  have v: "fst (timeElapsed pf h st) = dmul (fp_round pf) (Fin y1) (rate h)"
    by (simp add: timeElapsed_def c)
  have 1: "start (fst (startTimer pf st)) = ?now" by (simp add: startTimer_def)
  have 2: "tbi_denom pf \<noteq> 0 \<longrightarrow>
      (\<exists>q. rate (fst (startTimer pf st)) = Fin q \<and>
           \<bar>q - real (unat (tbi_numer pf)) / real (unat (tbi_denom pf))\<bar>
             \<le> eps * (real (unat (tbi_numer pf)) / real (unat (tbi_denom pf))))"
    using u32_ratio_accurate [OF assms, of "tbi_denom pf" "tbi_numer pf"]
    by (simp add: startTimer_def)
  have 3: "tbi_denom pf = 0 \<longrightarrow>
      rate (fst (startTimer pf st)) = (if tbi_numer pf = 0 then NaN else PInf)"
    by (simp add: startTimer_def u32_ratio_def)
  have 4: "start h \<le> ?now \<longrightarrow> unat ?w = unat ?now - unat (start h)"
    by (simp add: unat_sub)
  have 5: "\<forall>r. rate h = Fin r \<longrightarrow>
      (\<exists>y1. \<bar>y1 - ?d\<bar> \<le> eps * ?d \<and> fst (timeElapsed pf h st) = fp_round pf (y1 * r)) \<and>
      (r = 0 \<or> (1 / 2 ^ 900 \<le> \<bar>r\<bar> \<and> \<bar>r\<bar> \<le> 2 ^ 900) \<longrightarrow>
         (\<exists>y. fst (timeElapsed pf h st) = Fin y \<and>
              \<bar>y - ?d * r\<bar> \<le> (2 * eps + eps * eps) * \<bar>?d * r\<bar>))"
  proof (intro allI impI conjI)
    fix r assume r: "rate h = Fin r"
    then have p: "fst (timeElapsed pf h st) = fp_round pf (y1 * r)" by (simp add: v)
    with y1 show "\<exists>y1. \<bar>y1 - ?d\<bar> \<le> eps * ?d \<and> fst (timeElapsed pf h st) = fp_round pf (y1 * r)"
      by blast
    assume "r = 0 \<or> (1 / 2 ^ 900 \<le> \<bar>r\<bar> \<and> \<bar>r\<bar> \<le> 2 ^ 900)"
    from product_accurate [OF assms y1 dr this]
    show "\<exists>y. fst (timeElapsed pf h st) = Fin y \<and>
              \<bar>y - ?d * r\<bar> \<le> (2 * eps + eps * eps) * \<bar>?d * r\<bar>"
      unfolding p .
  qed
  have 6: "rate h = PInf \<longrightarrow>
      fst (timeElapsed pf h st) = (if ?now = start h then NaN else PInf)"
    using sign by (auto simp: v)
  have 7: "rate h = NInf \<longrightarrow>
      fst (timeElapsed pf h st) = (if ?now = start h then NaN else NInf)"
    using sign by (auto simp: v)
  have 8: "rate h = NaN \<longrightarrow> fst (timeElapsed pf h st) = NaN" by (simp add: v)
  have 9: "fst (snd (timeElapsed pf h st)) = h \<and>
   heap (snd (snd (timeElapsed pf h st))) = heap st \<and>
   clock_reads (snd (snd (timeElapsed pf h st))) = Suc (clock_reads st)"
    by (simp add: timeElapsed_def)
  from 1 2 3 4 5 6 7 8 9 show ?thesis by blast
qed

text \<open>
  The theorem with exact arithmetic, on a platform whose timebase is 125 / 3 and whose
  clock is at tick 130: the rate captured is 125 / 3, and a handle started at tick 100
  with rate 2 measures 60.
\<close>

theorem timeElapsed_formula_witness:
  "accurate_rounding 0 (fp_round timebase_platform) \<and>
   tbi_denom timebase_platform \<noteq> 0 \<and>
   rate (fst (startTimer timebase_platform \<lparr>heap = [], allocs = 0, clock_reads = 0\<rparr>)) =
     Fin (125 / 3) \<and>
   rate \<lparr>start = 100 :: u64, rate = Fin 2\<rparr> = Fin 2 \<and>
   fst (timeElapsed timebase_platform \<lparr>start = 100, rate = Fin 2\<rparr>
         \<lparr>heap = [], allocs = 0, clock_reads = 0\<rparr>) = Fin 60"
proof -
  let ?pf = timebase_platform
  let ?h = "\<lparr>start = 100 :: u64, rate = Fin 2\<rparr>"
  let ?st = "\<lparr>heap = [], allocs = 0, clock_reads = 0\<rparr>"
  have a: "accurate_rounding 0 (fp_round ?pf)"
    by (simp add: timebase_platform_def accurate_rounding_Fin)
  have n: "tbi_denom ?pf \<noteq> 0" by (simp add: timebase_platform_def)
  have r: "rate ?h = Fin 2" by simp
  have b: "(2 :: real) = 0 \<or> (1 / 2 ^ 900 \<le> \<bar>2 :: real\<bar> \<and> \<bar>2 :: real\<bar> \<le> 2 ^ 900)" by simp
  note t = timeElapsed_formula [OF a, of ?st ?h]
  from t n have "\<exists>q. rate (fst (startTimer ?pf ?st)) = Fin q \<and>
           \<bar>q - real (unat (tbi_numer ?pf)) / real (unat (tbi_denom ?pf))\<bar>
             \<le> 0 * (real (unat (tbi_numer ?pf)) / real (unat (tbi_denom ?pf)))"
    by blast
  then have 1: "rate (fst (startTimer ?pf ?st)) = Fin (125 / 3)"
    by (auto simp: timebase_platform_def)
  from t r b have "\<exists>y. fst (timeElapsed ?pf ?h ?st) = Fin y \<and>
              \<bar>y - real (unat (mach_absolute_time ?pf (clock_reads ?st) - start ?h)) * 2\<bar>
                \<le> (2 * 0 + 0 * 0) *
                   \<bar>real (unat (mach_absolute_time ?pf (clock_reads ?st) - start ?h)) * 2\<bar>"
    by blast
  then have 2: "fst (timeElapsed ?pf ?h ?st) = Fin 60"
    by (auto simp: timebase_platform_def)
  from a n r 1 2 show ?thesis by blast
qed

text \<open>
  Claim C8, as amended. Take a timer handle started at or before the first of two
  queries, the second made at a tick count no less than the first. If the rate of the
  handle is finite and non-negative, the second query returns at least what the first
  returns. If the rate is \<open>+\<infinity>\<close>, it does so when the first query is made at a tick
  count after \<open>start h\<close>. The rounding of the platform is taken to be monotone and,
  for the infinite rate, to represent 1.
\<close>

theorem timeElapsed_monotone:
  assumes rnd: "monotone_rounding (fp_round pf)"
    and r: "(\<exists>r. rate h = Fin r \<and> 0 \<le> r) \<or>
            (rate h = PInf \<and> start h < mach_absolute_time pf (clock_reads st1) \<and>
             fp_round pf 1 = Fin 1)"
    and t1: "start h \<le> mach_absolute_time pf (clock_reads st1)"
    and t2: "mach_absolute_time pf (clock_reads st1) \<le> mach_absolute_time pf (clock_reads st2)"
  shows "dle (fst (timeElapsed pf h st1)) (fst (timeElapsed pf h st2))"
proof -
  let ?t1 = "mach_absolute_time pf (clock_reads st1)"
  let ?t2 = "mach_absolute_time pf (clock_reads st2)"
  from t1 t2 have t12: "start h \<le> ?t2" by simp
  have n: "unat (?t1 - start h) \<le> unat (?t2 - start h)"
    using t1 t2 t12 by (simp add: unat_sub word_le_nat_alt)
  obtain y1 where y1: "u64_to_dbl (fp_round pf) (?t1 - start h) = Fin y1"
    using u64_finite [OF rnd] by blast
  obtain y2 where y2: "u64_to_dbl (fp_round pf) (?t2 - start h) = Fin y2"
    using u64_finite [OF rnd] by blast
  from n have "real (unat (?t1 - start h)) \<le> real (unat (?t2 - start h))"
    by (simp only: of_nat_le_iff)
  with rnd have
    "dle (u64_to_dbl (fp_round pf) (?t1 - start h)) (u64_to_dbl (fp_round pf) (?t2 - start h))"
    unfolding monotone_rounding_def u64_to_dbl_def by blast
  with y1 y2 have y12: "y1 \<le> y2" by simp
  from r show ?thesis
  proof
    assume "\<exists>r. rate h = Fin r \<and> 0 \<le> r"
    then obtain r where r: "rate h = Fin r" "0 \<le> r" by blast
    with y12 have "y1 * r \<le> y2 * r" by (simp add: mult_right_mono)
    with rnd have "dle (fp_round pf (y1 * r)) (fp_round pf (y2 * r))"
      by (simp add: monotone_rounding_def)
    with y1 y2 r show ?thesis by (simp add: timeElapsed_def)
  next
    assume i: "rate h = PInf \<and> start h < ?t1 \<and> fp_round pf 1 = Fin 1"
    then have "unat (?t1 - start h) \<noteq> 0" by (auto simp: unat_eq_0)
    then have "1 \<le> unat (?t1 - start h)" by simp
    then have "real 1 \<le> real (unat (?t1 - start h))" by (simp only: of_nat_le_iff)
    then have "1 \<le> real (unat (?t1 - start h))" by simp
    with rnd have "dle (fp_round pf 1) (u64_to_dbl (fp_round pf) (?t1 - start h))"
      unfolding monotone_rounding_def u64_to_dbl_def by blast
    with i y1 have "1 \<le> y1" by simp
    with y12 have "0 < y1" "0 < y2" by simp_all
    with y1 y2 i show ?thesis by (simp add: timeElapsed_def)
  qed
qed

text \<open>
  The theorem at a handle started at tick 100 with rate 2, queried at ticks 130 and 135
  on \<open>timebase_platform\<close>, and at a handle started at tick 7 with the rate \<open>+\<infinity>\<close>,
  queried at tick 12 twice on \<open>stalled_platform\<close>.
\<close>

theorem timeElapsed_monotone_witness:
  "dle (fst (timeElapsed timebase_platform \<lparr>start = 100, rate = Fin 2\<rparr>
         \<lparr>heap = [], allocs = 0, clock_reads = 0\<rparr>))
       (fst (timeElapsed timebase_platform \<lparr>start = 100, rate = Fin 2\<rparr>
         \<lparr>heap = [], allocs = 0, clock_reads = 5\<rparr>)) \<and>
   dle (fst (timeElapsed stalled_platform \<lparr>start = 7, rate = PInf\<rparr>
         \<lparr>heap = [], allocs = 0, clock_reads = 2\<rparr>))
       (fst (timeElapsed stalled_platform \<lparr>start = 7, rate = PInf\<rparr>
         \<lparr>heap = [], allocs = 0, clock_reads = 3\<rparr>))"
proof
  show "dle (fst (timeElapsed timebase_platform \<lparr>start = 100, rate = Fin 2\<rparr>
         \<lparr>heap = [], allocs = 0, clock_reads = 0\<rparr>))
       (fst (timeElapsed timebase_platform \<lparr>start = 100, rate = Fin 2\<rparr>
         \<lparr>heap = [], allocs = 0, clock_reads = 5\<rparr>))"
    by (rule timeElapsed_monotone)
      (simp_all add: timebase_platform_def monotone_rounding_Fin)
  show "dle (fst (timeElapsed stalled_platform \<lparr>start = 7, rate = PInf\<rparr>
         \<lparr>heap = [], allocs = 0, clock_reads = 2\<rparr>))
       (fst (timeElapsed stalled_platform \<lparr>start = 7, rate = PInf\<rparr>
         \<lparr>heap = [], allocs = 0, clock_reads = 3\<rparr>))"
    by (rule timeElapsed_monotone)
      (simp_all add: stalled_platform_def monotone_rounding_Fin)
qed

text \<open>
  Claim C8 as stated fails for the non-negative rate \<open>+\<infinity>\<close>, which \<open>startTimer\<close>
  captures when the denominator of the timebase is 0. On \<open>stalled_platform\<close> the handle
  is started at tick 7; the query made at tick 7 returns \<open>0 * \<infinity>\<close>, a NaN, the query
  made at tick 12 returns \<open>+\<infinity>\<close>, and a NaN is not at most anything.
\<close>

theorem timeElapsed_infinite_rate_counterexample:
  "start (fst (startTimer stalled_platform \<lparr>heap = [], allocs = 0, clock_reads = 0\<rparr>)) = 7 \<and>
   rate (fst (startTimer stalled_platform \<lparr>heap = [], allocs = 0, clock_reads = 0\<rparr>)) = PInf \<and>
   mach_absolute_time stalled_platform 1 = 7 \<and>
   mach_absolute_time stalled_platform 2 = 12 \<and>
   fst (timeElapsed stalled_platform
         (fst (startTimer stalled_platform \<lparr>heap = [], allocs = 0, clock_reads = 0\<rparr>))
         \<lparr>heap = [], allocs = 0, clock_reads = 1\<rparr>) = NaN \<and>
   fst (timeElapsed stalled_platform
         (fst (startTimer stalled_platform \<lparr>heap = [], allocs = 0, clock_reads = 0\<rparr>))
         \<lparr>heap = [], allocs = 0, clock_reads = 2\<rparr>) = PInf \<and>
   \<not> dle (fst (timeElapsed stalled_platform
         (fst (startTimer stalled_platform \<lparr>heap = [], allocs = 0, clock_reads = 0\<rparr>))
         \<lparr>heap = [], allocs = 0, clock_reads = 1\<rparr>))
       (fst (timeElapsed stalled_platform
         (fst (startTimer stalled_platform \<lparr>heap = [], allocs = 0, clock_reads = 0\<rparr>))
         \<lparr>heap = [], allocs = 0, clock_reads = 2\<rparr>))"
  by (simp add: stalled_platform_def startTimer_def timeElapsed_def u32_ratio_def u64_to_dbl_def)

subsection \<open>The flush loop returns\<close>

lemma NUM_CACHE_LINES_256: "NUM_CACHE_LINES = 256"
  by (simp add: NUM_CACHE_LINES_def UINT8_MAX_def)

lemma ARRAY_SIZE_val: "ARRAY_SIZE = 4194304"
  by (simp add: ARRAY_SIZE_def NUM_CACHE_LINES_256 sizeof_cache_line_t_def SPACING_def)

lemma dc_civac_stop:
  "dc_civac st p x = Inl e \<Longrightarrow> e = NullDeref CacheFlush \<or> e = BadAccess CacheFlush"
  by (auto simp: dc_civac_def split: ptr.splits if_splits)

lemma flush_loop_steps:
  "unat addr + CACHE_LINE_SIZE * k = unat limit \<Longrightarrow>
   \<exists>r. flush_loop st p addr limit flushed = Some r \<and>
       (\<forall>e. r = Inl e \<longrightarrow> e = NullDeref CacheFlush \<or> e = BadAccess CacheFlush)"
proof (induction k arbitrary: addr flushed)
  case 0
  then have "addr = limit" by (simp add: word_unat_eq_iff)
  then show ?case by (subst flush_loop.simps) simp
next
  case (Suc k)
  have lim: "unat limit < 2 ^ 64" using unsigned_less [of limit, where 'a = nat] by simp
  from Suc.prems have lt: "unat addr + 64 \<le> unat limit" by (simp add: CACHE_LINE_SIZE_def)
  with lim have "unat addr + unat (64 :: u64) < 2 ^ LENGTH(64)" by simp
  then have step: "unat (addr + 64) = unat addr + 64"
    by (simp add: unat_add_lem [THEN iffD1])
  have less: "addr < limit" using lt by (simp add: word_less_nat_alt)
  show ?case
  proof (cases "dc_civac st p addr")
    case (Inl e)
    with less dc_civac_stop [OF Inl] show ?thesis by (subst flush_loop.simps) simp
  next
    case (Inr u)
    have "\<exists>r. flush_loop st p (addr + of_nat CACHE_LINE_SIZE) limit (flushed @ [addr]) = Some r \<and>
       (\<forall>e. r = Inl e \<longrightarrow> e = NullDeref CacheFlush \<or> e = BadAccess CacheFlush)"
      using Suc.prems step by (intro Suc.IH) (simp add: CACHE_LINE_SIZE_def)
    with less Inr show ?thesis by (subst flush_loop.simps) simp
  qed
qed

lemma flush_wraps:
  fixes a :: u64
  assumes "\<not> unat a + ARRAY_SIZE < 2 ^ 64"
  shows "\<not> a < a + of_nat ARRAY_SIZE"
proof
  assume "a < a + of_nat ARRAY_SIZE"
  then have "a \<le> a + 4194304" by (simp add: ARRAY_SIZE_val)
  then have "unat (a + 4194304) = unat a + unat (4194304 :: u64)"
    by (simp add: no_olen_add_nat unat_add_lem [THEN iffD1])
  moreover have "unat (a + 4194304) < 2 ^ 64"
    using unsigned_less [of "a + 4194304", where 'a = nat] by simp
  ultimately show False using assms by (simp add: ARRAY_SIZE_val)
qed

lemma flush_no_wrap:
  fixes a :: u64
  assumes "unat a + ARRAY_SIZE < 2 ^ 64"
  shows "unat a + CACHE_LINE_SIZE * 65536 = unat (a + of_nat ARRAY_SIZE)"
proof -
  from assms have "unat a + unat (4194304 :: u64) < 2 ^ LENGTH(64)" by (simp add: ARRAY_SIZE_val)
  then have "unat (a + 4194304) = unat a + 4194304"
    by (simp add: unat_add_lem [THEN iffD1])
  then show ?thesis by (simp add: ARRAY_SIZE_val CACHE_LINE_SIZE_def)
qed

lemma flush_cache_relaxed_returns:
  "\<exists>r. flush_cache_relaxed st p ARRAY_SIZE = Some r \<and>
       (\<forall>e. r = Inl e \<longrightarrow> e = NullDeref CacheFlush \<or> e = BadAccess CacheFlush)"
proof (cases "unat (ptr_address p) + ARRAY_SIZE < 2 ^ 64")
  case True
  show ?thesis
    unfolding flush_cache_relaxed_def by (rule flush_loop_steps [OF flush_no_wrap [OF True]])
next
  case False
  then show ?thesis
    unfolding flush_cache_relaxed_def using flush_wraps [OF False]
    by (subst flush_loop.simps) simp
qed

lemma flush_loop_mapped:
  "unat addr + CACHE_LINE_SIZE * k = unat limit \<Longrightarrow> unat a \<le> unat addr \<Longrightarrow>
   unat limit \<le> unat a + block_size (heap st ! q) \<Longrightarrow> q < length (heap st) \<Longrightarrow>
   \<exists>fl. flush_loop st (Ptr a q 0) addr limit flushed = Some (Inr fl)"
proof (induction k arbitrary: addr flushed)
  case 0
  then have "addr = limit" by (simp add: word_unat_eq_iff)
  then show ?case by (subst flush_loop.simps) simp
next
  case (Suc k)
  have lim: "unat limit < 2 ^ 64" using unsigned_less [of limit, where 'a = nat] by simp
  from Suc.prems have lt: "unat addr + 64 \<le> unat limit" by (simp add: CACHE_LINE_SIZE_def)
  with lim have "unat addr + unat (64 :: u64) < 2 ^ LENGTH(64)" by simp
  then have step: "unat (addr + 64) = unat addr + 64"
    by (simp add: unat_add_lem [THEN iffD1])
  have less: "addr < limit" using lt by (simp add: word_less_nat_alt)
  have "a \<le> addr" using Suc.prems(2) by (simp add: word_le_nat_alt)
  then have "unat (addr - a) = unat addr - unat a" by (simp add: unat_sub)
  with lt Suc.prems have "unat (addr - a) < block_size (heap st ! q)" by simp
  with Suc.prems have ok: "dc_civac st (Ptr a q 0) addr = Inr ()" by (simp add: dc_civac_def)
  have "\<exists>fl. flush_loop st (Ptr a q 0) (addr + of_nat CACHE_LINE_SIZE) limit (flushed @ [addr])
          = Some (Inr fl)"
    using Suc.prems step by (intro Suc.IH) (simp_all add: CACHE_LINE_SIZE_def)
  with less ok show ?case by (subst flush_loop.simps) simp
qed

lemma flush_cache_relaxed_allocated:
  assumes "q < length (heap st)" "heap st ! q = Raw ARRAY_SIZE"
  shows "\<exists>fl. flush_cache_relaxed st (Ptr a q 0) ARRAY_SIZE = Some (Inr fl)"
proof (cases "unat a + ARRAY_SIZE < 2 ^ 64")
  case True
  from flush_no_wrap [OF True]
  have "unat (a + of_nat ARRAY_SIZE) \<le> unat a + block_size (heap st ! q)"
    using assms by (simp add: block_size_def ARRAY_SIZE_val CACHE_LINE_SIZE_def)
  with flush_no_wrap [OF True] assms(1) show ?thesis
    unfolding flush_cache_relaxed_def ptr_address_def
    by (simp add: flush_loop_mapped [where k = 65536])
next
  case False
  from flush_wraps [OF False] show ?thesis
    unfolding flush_cache_relaxed_def ptr_address_def
    by (subst flush_loop.simps) simp
qed

lemma flush_cache_relaxed_Null:
  "flush_cache_relaxed st Null ARRAY_SIZE = Some (Inl (NullDeref CacheFlush))"
  unfolding flush_cache_relaxed_def
  by (subst flush_loop.simps) (simp add: ptr_address_def dc_civac_def ARRAY_SIZE_val)

subsection \<open>How a run can stop, and what it leaves unchanged\<close>

lemma frame_refl: "frame sump st st"
  by (simp add: frame_def)

lemma frame_trans: "frame sump st st1 \<Longrightarrow> frame sump st1 st2 \<Longrightarrow> frame sump st st2"
  by (auto simp: frame_def)

lemma touch_cacheLine_stop:
  "touch_cacheLine acc st array i = Inl e \<Longrightarrow> e = NullDeref acc \<or> e = BadAccess acc"
  by (auto simp: touch_cacheLine_def split: ptr.splits if_splits block.splits)

lemma add_to_sum_stop:
  "add_to_sum rnd st sump i x = Inl e \<Longrightarrow> e = NullDeref SumUpdate \<or> e = BadAccess SumUpdate"
  by (auto simp: add_to_sum_def split: ptr.splits if_splits block.splits)

lemma load_u8_stop:
  "load_u8 acc st p = Inl e \<Longrightarrow> e = NullDeref acc \<or> e = BadAccess acc"
  by (auto simp: load_u8_def split: ptr.splits if_splits block.splits)

lemma load_doubles_stop:
  "load_doubles st p n = Inl e \<Longrightarrow> e = NullDeref SumScan \<or> e = BadAccess SumScan"
  by (auto simp: load_doubles_def split: ptr.splits if_splits block.splits)

lemma add_to_sum_frame:
  "add_to_sum rnd st sump i x = Inr st' \<Longrightarrow>
   frame sump st st' \<and> allocs st' = allocs st \<and> clock_reads st' = clock_reads st"
  by (auto simp: add_to_sum_def frame_def ptr_block_def split: ptr.splits if_splits block.splits)

lemma timed_loop_step:
  "i < NUM_CACHE_LINES \<Longrightarrow>
   timed_loop pf array sump i st =
     (case touch_cacheLine TimedAccess (st\<lparr>clock_reads := Suc (clock_reads st)\<rparr>) array i of
        Inl e \<Rightarrow> Inl e
      | Inr u \<Rightarrow>
          (case add_to_sum (fp_round pf) (st\<lparr>clock_reads := Suc (Suc (clock_reads st))\<rparr>)
                  sump i (elapsed_at pf (clock_reads st)) of
             Inl e \<Rightarrow> Inl e
           | Inr st3 \<Rightarrow> timed_loop pf array sump (Suc i) st3))"
  by (subst timed_loop.simps) (simp add: startTimer_def timeElapsed_def elapsed_at_def split: sum.splits)

lemma timed_loop_done:
  "\<not> i < NUM_CACHE_LINES \<Longrightarrow> timed_loop pf array sump i st = Inr st"
  by (subst timed_loop.simps) simp

lemma timed_loop_stop:
  "NUM_CACHE_LINES - i = n \<Longrightarrow> timed_loop pf array sump i st = Inl e \<Longrightarrow>
   e \<noteq> NoReturn \<and> e \<noteq> BadAccess SecretDependentAccess"
proof (induction n arbitrary: i st)
  case 0
  then show ?case by (simp add: timed_loop_done)
next
  case (Suc n)
  then have i: "i < NUM_CACHE_LINES" and n: "NUM_CACHE_LINES - Suc i = n" by simp_all
  from Suc.prems(2) consider
      (touch) "touch_cacheLine TimedAccess (st\<lparr>clock_reads := Suc (clock_reads st)\<rparr>) array i
                 = Inl e"
    | (add) "add_to_sum (fp_round pf) (st\<lparr>clock_reads := Suc (Suc (clock_reads st))\<rparr>)
               sump i (elapsed_at pf (clock_reads st)) = Inl e"
    | (loop) st3 where "timed_loop pf array sump (Suc i) st3 = Inl e"
    unfolding timed_loop_step [OF i] by (auto split: sum.splits)
  then show ?case
  proof cases
    case touch
    then show ?thesis by (auto dest!: touch_cacheLine_stop)
  next
    case add
    then show ?thesis by (auto dest!: add_to_sum_stop)
  next
    case loop
    then show ?thesis by (rule Suc.IH [OF n])
  qed
qed

lemma timed_loop_frame:
  "NUM_CACHE_LINES - i = n \<Longrightarrow> timed_loop pf array sump i st = Inr st' \<Longrightarrow>
   frame sump st st' \<and> allocs st' = allocs st \<and> clock_reads st' = clock_reads st + 2 * n"
proof (induction n arbitrary: i st)
  case 0
  then show ?case by (simp add: timed_loop_done frame_refl)
next
  case (Suc n)
  then have i: "i < NUM_CACHE_LINES" and n: "NUM_CACHE_LINES - Suc i = n" by simp_all
  from Suc.prems(2) obtain st3 where
    a: "add_to_sum (fp_round pf) (st\<lparr>clock_reads := Suc (Suc (clock_reads st))\<rparr>)
          sump i (elapsed_at pf (clock_reads st)) = Inr st3"
    and l: "timed_loop pf array sump (Suc i) st3 = Inr st'"
    unfolding timed_loop_step [OF i] by (auto split: sum.splits)
  from add_to_sum_frame [OF a] Suc.IH [OF n l] show ?case
    by (auto simp: frame_def)
qed

lemma malloc_touch:
  "malloc pf ARRAY_SIZE st = (array, st1) \<Longrightarrow>
   touch_cacheLine acc st1 array (unat (v :: u8)) = Inl e \<Longrightarrow> e = NullDeref acc"
proof -
  have "unat v < 256" using unsigned_less [of v, where 'a = nat] by simp
  then have "cacheLine_offset (unat v) < ARRAY_SIZE"
    by (simp add: cacheLine_offset_def slot_offset_def offsetof_cacheLine_def
        ARRAY_SIZE_def NUM_CACHE_LINES_256 sizeof_cache_line_t_def SPACING_def)
  then show "malloc pf ARRAY_SIZE st = (array, st1) \<Longrightarrow>
   touch_cacheLine acc st1 array (unat v) = Inl e \<Longrightarrow> e = NullDeref acc"
    by (auto simp: malloc_def allocate_def touch_cacheLine_def split: option.splits)
qed

lemma malloc_frame:
  "malloc pf n st = (array, st1) \<Longrightarrow>
   frame sump st st1 \<and> allocs st1 = Suc (allocs st) \<and> clock_reads st1 = clock_reads st"
  by (auto simp: malloc_def allocate_def frame_def nth_append split: option.splits)

lemma iteration_stop:
  assumes "iteration pf addr sump st = Inl e"
  shows "e \<noteq> NoReturn \<and> e \<noteq> BadAccess SecretDependentAccess"
proof -
  obtain array st1 where m: "malloc pf ARRAY_SIZE st = (array, st1)" by force
  from assms show ?thesis
    unfolding iteration_def m
    using flush_cache_relaxed_returns [of st1 array]
    by (auto split: option.splits sum.splits
        dest!: load_u8_stop malloc_touch [OF m] dest: timed_loop_stop [OF refl])
qed

lemma iteration_frame:
  assumes "iteration pf addr sump st = Inr st'"
  shows "frame sump st st' \<and> allocs st' = Suc (allocs st) \<and>
         clock_reads st' = clock_reads st + 2 * NUM_CACHE_LINES"
proof -
  obtain array st1 where m: "malloc pf ARRAY_SIZE st = (array, st1)" by force
  from assms have "timed_loop pf array sump 0 st1 = Inr st'"
    unfolding iteration_def m by (auto split: option.splits sum.splits)
  from timed_loop_frame [OF refl this] malloc_frame [OF m, of sump] show ?thesis
    by (auto intro: frame_trans)
qed

lemma iter_loop_step:
  "iter < ITERATIONS \<Longrightarrow>
   iter_loop pf addr sump iter st =
     (case iteration pf addr sump st of
        Inl e \<Rightarrow> Inl e
      | Inr st1 \<Rightarrow> iter_loop pf addr sump (Suc iter) st1)"
  by (subst iter_loop.simps) simp

lemma iter_loop_done:
  "\<not> iter < ITERATIONS \<Longrightarrow> iter_loop pf addr sump iter st = Inr st"
  by (subst iter_loop.simps) simp

lemma iter_loop_stop:
  "ITERATIONS - iter = n \<Longrightarrow> iter_loop pf addr sump iter st = Inl e \<Longrightarrow>
   e \<noteq> NoReturn \<and> e \<noteq> BadAccess SecretDependentAccess"
proof (induction n arbitrary: iter st)
  case 0
  then show ?case by (simp add: iter_loop_done)
next
  case (Suc n)
  then have i: "iter < ITERATIONS" and n: "ITERATIONS - Suc iter = n" by simp_all
  from Suc.prems(2) consider
      (first) "iteration pf addr sump st = Inl e"
    | (loop) st1 where "iter_loop pf addr sump (Suc iter) st1 = Inl e"
    unfolding iter_loop_step [OF i] by (auto split: sum.splits)
  then show ?case
  proof cases
    case first
    then show ?thesis by (rule iteration_stop)
  next
    case loop
    then show ?thesis by (rule Suc.IH [OF n])
  qed
qed

lemma iter_loop_frame:
  "ITERATIONS - iter = n \<Longrightarrow> iter_loop pf addr sump iter st = Inr st' \<Longrightarrow>
   frame sump st st' \<and> allocs st' = allocs st + n \<and>
   clock_reads st' = clock_reads st + 2 * NUM_CACHE_LINES * n"
proof (induction n arbitrary: iter st)
  case 0
  then show ?case by (simp add: iter_loop_done frame_refl)
next
  case (Suc n)
  then have i: "iter < ITERATIONS" and n: "ITERATIONS - Suc iter = n" by simp_all
  from Suc.prems(2) obtain st1 where
    a: "iteration pf addr sump st = Inr st1"
    and l: "iter_loop pf addr sump (Suc iter) st1 = Inr st'"
    unfolding iter_loop_step [OF i] by (auto split: sum.splits)
  from iteration_frame [OF a] Suc.IH [OF n l] show ?case
    by (auto intro: frame_trans)
qed

lemma attempt_stop: "attempt pf addr sump bi st = Inl e \<Longrightarrow> e \<noteq> NoReturn \<and> e \<noteq> BadAccess SecretDependentAccess"
  unfolding attempt_def
  by (auto split: sum.splits dest!: load_doubles_stop dest: iter_loop_stop [OF refl]
     )

lemma attempt_frame:
  "attempt pf addr sump bi st = Inr (bi', st') \<Longrightarrow>
   frame sump st st' \<and> allocs st' = allocs st + ITERATIONS \<and>
   clock_reads st' = clock_reads st + 2 * NUM_CACHE_LINES * ITERATIONS"
  unfolding attempt_def
  by (auto split: sum.splits dest: iter_loop_frame [OF refl])

lemma try_loop_step:
  "tr < RETRIES_IF_ZERO \<Longrightarrow>
   try_loop pf addr sump tr bi st =
     (case attempt pf addr sump bi st of
        Inl e \<Rightarrow> Inl e
      | Inr (bi', st1) \<Rightarrow>
          (case bi' of
             None \<Rightarrow> Inl UninitialisedRead
           | Some b \<Rightarrow>
               if b \<noteq> 0 then Inr (bi', st1) else try_loop pf addr sump (Suc tr) bi' st1))"
  by (subst try_loop.simps) simp

lemma try_loop_done:
  "\<not> tr < RETRIES_IF_ZERO \<Longrightarrow> try_loop pf addr sump tr bi st = Inr (bi, st)"
  by (subst try_loop.simps) simp

lemma try_loop_stop:
  "RETRIES_IF_ZERO - tr = n \<Longrightarrow> try_loop pf addr sump tr bi st = Inl e \<Longrightarrow>
   e \<noteq> NoReturn \<and> e \<noteq> BadAccess SecretDependentAccess"
proof (induction n arbitrary: tr bi st)
  case 0
  then show ?case by (simp add: try_loop_done)
next
  case (Suc n)
  then have i: "tr < RETRIES_IF_ZERO" and n: "RETRIES_IF_ZERO - Suc tr = n" by simp_all
  show ?case
  proof (cases "attempt pf addr sump bi st")
    case (Inl e')
    with Suc.prems(2) have "e' = e" by (simp add: try_loop_step [OF i])
    with Inl show ?thesis by (simp add: attempt_stop)
  next
    case (Inr r)
    obtain bi1 st1 where r: "r = (bi1, st1)" by (cases r)
    show ?thesis
    proof (cases bi1)
      case None
      with Suc.prems(2) Inr r show ?thesis by (simp add: try_loop_step [OF i])
    next
      case (Some b)
      show ?thesis
      proof (cases "b = 0")
        case True
        with Suc.prems(2) Inr r Some
        have "try_loop pf addr sump (Suc tr) bi1 st1 = Inl e"
          by (simp add: try_loop_step [OF i])
        then show ?thesis by (rule Suc.IH [OF n])
      next
        case False
        with Suc.prems(2) Inr r Some show ?thesis by (simp add: try_loop_step [OF i])
      qed
    qed
  qed
qed

lemma try_loop_frame:
  "RETRIES_IF_ZERO - tr = n \<Longrightarrow> try_loop pf addr sump tr bi st = Inr (bi', st') \<Longrightarrow>
   frame sump st st'"
proof (induction n arbitrary: tr bi st)
  case 0
  then show ?case by (simp add: try_loop_done frame_refl)
next
  case (Suc n)
  then have i: "tr < RETRIES_IF_ZERO" and n: "RETRIES_IF_ZERO - Suc tr = n" by simp_all
  show ?case
  proof (cases "attempt pf addr sump bi st")
    case (Inl e')
    with Suc.prems(2) show ?thesis by (simp add: try_loop_step [OF i])
  next
    case (Inr r)
    obtain bi1 st1 where r: "r = (bi1, st1)" by (cases r)
    from attempt_frame [OF Inr [unfolded r]] have f: "frame sump st st1" by simp
    show ?thesis
    proof (cases bi1)
      case None
      with Suc.prems(2) Inr r show ?thesis by (simp add: try_loop_step [OF i])
    next
      case (Some b)
      show ?thesis
      proof (cases "b = 0")
        case True
        with Suc.prems(2) Inr r Some
        have "try_loop pf addr sump (Suc tr) bi1 st1 = Inr (bi', st')"
          by (simp add: try_loop_step [OF i])
        from f Suc.IH [OF n this] show ?thesis by (rule frame_trans)
      next
        case False
        with Suc.prems(2) Inr r Some f show ?thesis by (simp add: try_loop_step [OF i])
      qed
    qed
  qed
qed

subsection \<open>The retry loop\<close>

lemma attempts_counts:
  "attempts pf addr sump n (bi, st) = Inr (bi', st') \<Longrightarrow>
   frame sump st st' \<and> allocs st' = allocs st + n * ITERATIONS \<and>
   clock_reads st' = clock_reads st + n * (2 * NUM_CACHE_LINES * ITERATIONS)"
proof (induction n arbitrary: bi' st')
  case 0
  then show ?case by (simp add: frame_refl)
next
  case (Suc n)
  from Suc.prems obtain bi1 st1 where a: "attempts pf addr sump n (bi, st) = Inr (bi1, st1)"
    and b: "attempt pf addr sump bi1 st1 = Inr (bi', st')"
    by (auto split: sum.splits)
  from Suc.IH [OF a] attempt_frame [OF b] show ?case
    by (auto intro: frame_trans simp: algebra_simps)
qed

lemma try_loop_skip:
  "tr + n \<le> RETRIES_IF_ZERO \<Longrightarrow>
   \<forall>j<n. \<exists>st'. attempts pf addr sump (Suc j) s = Inr (Some 0, st') \<Longrightarrow>
   \<exists>bi' st'. attempts pf addr sump n s = Inr (bi', st') \<and>
     try_loop pf addr sump tr (fst s) (snd s) = try_loop pf addr sump (tr + n) bi' st'"
proof (induction n)
  case 0
  then show ?case by (cases s) simp
next
  case (Suc n)
  from Suc.prems have le: "tr + n \<le> RETRIES_IF_ZERO" and lt: "tr + n < RETRIES_IF_ZERO"
    by simp_all
  from Suc.prems(2) have "\<forall>j<n. \<exists>st'. attempts pf addr sump (Suc j) s = Inr (Some 0, st')"
    by simp
  from Suc.IH [OF le this] obtain bi1 st1 where
    a: "attempts pf addr sump n s = Inr (bi1, st1)"
    and t: "try_loop pf addr sump tr (fst s) (snd s) = try_loop pf addr sump (tr + n) bi1 st1"
    by blast
  from Suc.prems(2) obtain st2 where b: "attempts pf addr sump (Suc n) s = Inr (Some 0, st2)"
    by blast
  with a have c: "attempt pf addr sump bi1 st1 = Inr (Some 0, st2)" by simp
  have "try_loop pf addr sump (tr + n) bi1 st1 = try_loop pf addr sump (tr + Suc n) (Some 0) st2"
    by (simp add: try_loop_step [OF lt] c)
  with t b show ?case by simp
qed

lemma inferb_try_loop:
  "inferb pf addr st =
     (case try_loop pf addr (fst (calloc_doubles pf NUM_CACHE_LINES st)) 0 None
             (snd (calloc_doubles pf NUM_CACHE_LINES st)) of
        Inl e \<Rightarrow> Inl e
      | Inr (bi, st2) \<Rightarrow> (case bi of None \<Rightarrow> Inl UninitialisedRead | Some b \<Rightarrow> Inr (b, st2)))"
  by (simp add: inferb_def split: prod.splits)

lemma after_attempts_attempts:
  "after_attempts pf addr st n =
     attempts pf addr (fst (calloc_doubles pf NUM_CACHE_LINES st)) n
       (None, snd (calloc_doubles pf NUM_CACHE_LINES st))"
  by (simp add: after_attempts_def split: prod.splits)

lemma calloc_counts:
  "allocs (snd (calloc_doubles pf n st)) = Suc (allocs st) \<and>
   clock_reads (snd (calloc_doubles pf n st)) = clock_reads st"
  by (simp add: calloc_doubles_def allocate_def split: option.splits)

lemma decision_Some:
  "decision pf addr st k = Some v \<Longrightarrow> \<exists>st'. after_attempts pf addr st (Suc k) = Inr (Some v, st')"
  by (auto simp: decision_def split: sum.splits)

text \<open>
  Claim C2, as amended. \<open>inferb\<close> always terminates: it returns a byte, or it stops at
  a dereference of a null pointer (after a failed allocation), at an access outside a
  block (at an unreadable secret address) or at a read of \<open>bestIndex\<close> that was never
  assigned. If the decision of
  every attempt is 0, it performs exactly \<open>RETRIES_IF_ZERO\<close> attempts and returns 0: the
  state it returns is the state after \<open>RETRIES_IF_ZERO\<close> attempts, in which
  \<open>1 + RETRIES_IF_ZERO * ITERATIONS\<close> allocations were made.
\<close>

theorem inferb_terminates:
  "inferb pf addr st \<noteq> Inl NoReturn \<and>
   ((\<exists>v st'. inferb pf addr st = Inr (v, st')) \<or>
    (\<exists>acc. inferb pf addr st = Inl (NullDeref acc)) \<or>
    (\<exists>acc. inferb pf addr st = Inl (BadAccess acc)) \<or>
    inferb pf addr st = Inl UninitialisedRead) \<and>
   ((\<forall>k<RETRIES_IF_ZERO. decision pf addr st k = Some 0) \<longrightarrow>
      (\<exists>st'. inferb pf addr st = Inr (0, st') \<and>
         after_attempts pf addr st RETRIES_IF_ZERO = Inr (Some 0, st') \<and>
         allocs st' = allocs st + 1 + RETRIES_IF_ZERO * ITERATIONS \<and>
         clock_reads st' = clock_reads st + RETRIES_IF_ZERO * (2 * NUM_CACHE_LINES * ITERATIONS)))"
proof (intro conjI impI)
  show ret: "inferb pf addr st \<noteq> Inl NoReturn"
    unfolding inferb_try_loop
    by (auto split: sum.splits option.splits dest: try_loop_stop [OF refl])
  show "(\<exists>v st'. inferb pf addr st = Inr (v, st')) \<or>
    (\<exists>acc. inferb pf addr st = Inl (NullDeref acc)) \<or>
    (\<exists>acc. inferb pf addr st = Inl (BadAccess acc)) \<or>
    inferb pf addr st = Inl UninitialisedRead"
  proof (cases "inferb pf addr st")
    case (Inl e)
    with ret show ?thesis by (cases e) simp_all
  next
    case (Inr r)
    then show ?thesis by (cases r) simp
  qed
next
  let ?sump = "fst (calloc_doubles pf NUM_CACHE_LINES st)"
  let ?st1 = "snd (calloc_doubles pf NUM_CACHE_LINES st)"
  assume z: "\<forall>k<RETRIES_IF_ZERO. decision pf addr st k = Some 0"
  then have all: "\<forall>j<RETRIES_IF_ZERO. \<exists>st'. attempts pf addr ?sump (Suc j) (None, ?st1) = Inr (Some 0, st')"
    using decision_Some [of pf addr st _ 0] by (simp add: after_attempts_attempts)
  from try_loop_skip [of 0 RETRIES_IF_ZERO pf addr ?sump "(None, ?st1)", OF _ all]
  obtain bi' st' where a: "attempts pf addr ?sump RETRIES_IF_ZERO (None, ?st1) = Inr (bi', st')"
    and t: "try_loop pf addr ?sump 0 None ?st1 = try_loop pf addr ?sump RETRIES_IF_ZERO bi' st'"
    by auto
  have pos: "RETRIES_IF_ZERO = Suc (RETRIES_IF_ZERO - 1)" by (simp add: RETRIES_IF_ZERO_def)
  have "RETRIES_IF_ZERO - 1 < RETRIES_IF_ZERO" by (simp add: RETRIES_IF_ZERO_def)
  with all have "\<exists>st'. attempts pf addr ?sump (Suc (RETRIES_IF_ZERO - 1)) (None, ?st1) = Inr (Some 0, st')"
    by blast
  with a have bi': "bi' = Some 0" unfolding pos [symmetric] by auto
  from t have "try_loop pf addr ?sump 0 None ?st1 = Inr (Some 0, st')"
    by (simp add: try_loop_done bi')
  then have r: "inferb pf addr st = Inr (0, st')" by (simp add: inferb_try_loop)
  from attempts_counts [OF a] calloc_counts [of pf NUM_CACHE_LINES st]
  have "allocs st' = allocs st + 1 + RETRIES_IF_ZERO * ITERATIONS \<and>
        clock_reads st' = clock_reads st + RETRIES_IF_ZERO * (2 * NUM_CACHE_LINES * ITERATIONS)"
    by simp
  with r a bi' show "\<exists>st'. inferb pf addr st = Inr (0, st') \<and>
         after_attempts pf addr st RETRIES_IF_ZERO = Inr (Some 0, st') \<and>
         allocs st' = allocs st + 1 + RETRIES_IF_ZERO * ITERATIONS \<and>
         clock_reads st' = clock_reads st + RETRIES_IF_ZERO * (2 * NUM_CACHE_LINES * ITERATIONS)"
    by (simp add: after_attempts_attempts)
qed

text \<open>
  Claim C4. If the attempts before attempt \<open>k\<close> decide 0 and attempt \<open>k\<close> decides a
  non-zero \<open>v\<close>, \<open>inferb\<close> returns \<open>v\<close> in the state that attempt leaves: no further
  attempt is made, and exactly \<open>k + 1\<close> attempts' worth of allocations and clock reads
  have taken place.
\<close>

theorem inferb_returns_first_nonzero:
  assumes k: "k < RETRIES_IF_ZERO"
    and zeros: "\<forall>j<k. decision pf addr st j = Some 0"
    and v: "decision pf addr st k = Some v" "v \<noteq> 0"
  shows "\<exists>st'. inferb pf addr st = Inr (v, st') \<and>
           after_attempts pf addr st (Suc k) = Inr (Some v, st') \<and>
           allocs st' = allocs st + 1 + Suc k * ITERATIONS \<and>
           clock_reads st' = clock_reads st + Suc k * (2 * NUM_CACHE_LINES * ITERATIONS)"
proof -
  let ?sump = "fst (calloc_doubles pf NUM_CACHE_LINES st)"
  let ?st1 = "snd (calloc_doubles pf NUM_CACHE_LINES st)"
  from zeros have all: "\<forall>j<k. \<exists>st'. attempts pf addr ?sump (Suc j) (None, ?st1) = Inr (Some 0, st')"
    using decision_Some [of pf addr st _ 0] by (simp add: after_attempts_attempts)
  from k have "0 + k \<le> RETRIES_IF_ZERO" by simp
  from try_loop_skip [OF this all]
  obtain bi1 st1 where a: "attempts pf addr ?sump k (None, ?st1) = Inr (bi1, st1)"
    and t: "try_loop pf addr ?sump 0 None ?st1 = try_loop pf addr ?sump k bi1 st1"
    by auto
  from decision_Some [OF v(1)] obtain st' where
    b: "attempts pf addr ?sump (Suc k) (None, ?st1) = Inr (Some v, st')"
    by (auto simp: after_attempts_attempts)
  with a have c: "attempt pf addr ?sump bi1 st1 = Inr (Some v, st')" by simp
  have "try_loop pf addr ?sump k bi1 st1 = Inr (Some v, st')"
    by (simp add: try_loop_step [OF k] c v(2))
  with t have r: "inferb pf addr st = Inr (v, st')" by (simp add: inferb_try_loop)
  from attempts_counts [OF b] calloc_counts [of pf NUM_CACHE_LINES st]
  have "allocs st' = allocs st + 1 + Suc k * ITERATIONS \<and>
        clock_reads st' = clock_reads st + Suc k * (2 * NUM_CACHE_LINES * ITERATIONS)"
    by simp
  with r b show ?thesis by (simp add: after_attempts_attempts)
qed

subsection \<open>Memory\<close>

lemma calloc_frame:
  "calloc_doubles pf n st = (sump, st1) \<Longrightarrow>
   length (heap st) \<le> length (heap st1) \<and>
   (\<forall>b<length (heap st). heap st1 ! b = heap st ! b \<and> ptr_block sump \<noteq> Some b)"
  by (auto simp: calloc_doubles_def allocate_def ptr_block_def nth_append split: option.splits)

lemma load_u8_frame:
  "load_u8 acc st p = Inr s \<Longrightarrow> length (heap st) \<le> length (heap st') \<Longrightarrow>
   \<forall>b<length (heap st). heap st' ! b = heap st ! b \<Longrightarrow> load_u8 acc st' p = Inr s"
  by (auto simp: load_u8_def split: ptr.splits if_splits block.splits)

text \<open>
  Claim C9. When \<open>inferb\<close> returns, every block of memory that existed at the call is
  as it was: \<open>inferb\<close> writes only to the block it allocated for its sums. In
  particular, whatever byte the secret address held before the call, it holds after it.
\<close>

theorem inferb_preserves_memory:
  assumes "inferb pf addr st = Inr (v, st')"
  shows "length (heap st) \<le> length (heap st') \<and>
         (\<forall>b<length (heap st). heap st' ! b = heap st ! b) \<and>
         (\<forall>s. load_u8 SecretRead st addr = Inr s \<longrightarrow> load_u8 SecretRead st' addr = Inr s)"
proof -
  obtain sump st1 where c: "calloc_doubles pf NUM_CACHE_LINES st = (sump, st1)" by force
  from assms obtain bi where t: "try_loop pf addr sump 0 None st1 = Inr (bi, st')"
    by (auto simp: inferb_def c split: sum.splits option.splits)
  from try_loop_frame [OF refl t] have f: "frame sump st1 st'" .
  from calloc_frame [OF c] f
  have 1: "length (heap st) \<le> length (heap st')"
    and 2: "\<forall>b<length (heap st). heap st' ! b = heap st ! b"
    by (auto simp: frame_def)
  from 1 2 show ?thesis by (auto intro: load_u8_frame)
qed

text \<open>
  Claim C10. The index read from the secret address is a byte, so it is below the
  number of slots, \<open>NUM_CACHE_LINES = UINT8_MAX + 1\<close>, and the byte the
  secret-dependent access reads lies inside the \<open>ARRAY_SIZE\<close> bytes of the probe array:
  no run of \<open>inferb\<close> stops at an out-of-bounds secret-dependent access.
\<close>

theorem secret_dependent_access_in_bounds:
  "unat (v :: u8) < NUM_CACHE_LINES \<and>
   cacheLine_offset (unat v) < ARRAY_SIZE \<and>
   inferb pf addr st \<noteq> Inl (BadAccess SecretDependentAccess)"
proof (intro conjI)
  have v: "unat v < 256" using unsigned_less [of v, where 'a = nat] by simp
  then show "unat v < NUM_CACHE_LINES" by (simp add: NUM_CACHE_LINES_256)
  from v show "cacheLine_offset (unat v) < ARRAY_SIZE"
    by (simp add: cacheLine_offset_def slot_offset_def offsetof_cacheLine_def
        ARRAY_SIZE_def NUM_CACHE_LINES_256 sizeof_cache_line_t_def SPACING_def)
  show "inferb pf addr st \<noteq> Inl (BadAccess SecretDependentAccess)"
    unfolding inferb_try_loop
    by (auto split: sum.splits option.splits dest: try_loop_stop [OF refl])
qed

subsection \<open>The measurement in closed form\<close>

lemma length_add_elapsed [simp]: "length (add_elapsed pf c i xs) = length xs"
  by (simp add: add_elapsed_def)

lemma length_iter_sums [simp]: "length (iter_sums pf c n xs) = length xs"
  by (induction n arbitrary: c xs) simp_all


lemma add_elapsed_done: "NUM_CACHE_LINES \<le> i \<Longrightarrow> add_elapsed pf c i xs = xs"
  by (auto simp: add_elapsed_def intro!: nth_equalityI)

lemma add_elapsed_step:
  "i < length xs \<Longrightarrow> i < NUM_CACHE_LINES \<Longrightarrow>
   add_elapsed pf (Suc (Suc c)) (Suc i) (xs[i := dadd (fp_round pf) (xs ! i) (elapsed_at pf c)]) =
   add_elapsed pf c i xs"
  by (auto simp: add_elapsed_def nth_list_update intro!: nth_equalityI arg_cong2 [where f = "dadd (fp_round pf)"] arg_cong [where f = "elapsed_at pf"])

lemma timed_loop_total:
  assumes "NUM_CACHE_LINES - i = n"
    and "p < length (heap st)" "heap st ! p = Doubles xs" "length xs = NUM_CACHE_LINES"
    and "q < length (heap st)" "heap st ! q = Raw ARRAY_SIZE"
  shows "timed_loop pf (Ptr a' q 0) (Ptr a p 0) i st =
         Inr (st\<lparr>heap := (heap st)[p := Doubles (add_elapsed pf (clock_reads st) i xs)],
                 clock_reads := clock_reads st + 2 * n\<rparr>)"
  using assms
proof (induction n arbitrary: i st xs)
  case 0
  then have "NUM_CACHE_LINES \<le> i" by simp
  with 0 show ?case
    by (simp add: timed_loop_done add_elapsed_done list_update_same_conv [THEN iffD2])
next
  case (Suc n)
  then have i: "i < NUM_CACHE_LINES" and n: "NUM_CACHE_LINES - Suc i = n" by simp_all
  let ?c = "clock_reads st"
  let ?xs1 = "xs[i := dadd (fp_round pf) (xs ! i) (elapsed_at pf ?c)]"
  let ?st3 = "st\<lparr>clock_reads := Suc (Suc ?c), heap := (heap st)[p := Doubles ?xs1]\<rparr>"
  have off: "cacheLine_offset i < ARRAY_SIZE"
    using i by (simp add: cacheLine_offset_def slot_offset_def offsetof_cacheLine_def
        ARRAY_SIZE_def sizeof_cache_line_t_def SPACING_def)
  have t: "touch_cacheLine TimedAccess (st\<lparr>clock_reads := Suc ?c\<rparr>) (Ptr a' q 0) i = Inr ()"
    using Suc.prems off by (simp add: touch_cacheLine_def)
  have s: "add_to_sum (fp_round pf) (st\<lparr>clock_reads := Suc (Suc ?c)\<rparr>) (Ptr a p 0) i
             (elapsed_at pf ?c) = Inr ?st3"
    using Suc.prems i by (simp add: add_to_sum_def)
  have pq: "p \<noteq> q" using Suc.prems by auto
  have "timed_loop pf (Ptr a' q 0) (Ptr a p 0) (Suc i) ?st3 =
         Inr (?st3\<lparr>heap := (heap ?st3)[p := Doubles (add_elapsed pf (clock_reads ?st3) (Suc i) ?xs1)],
                 clock_reads := clock_reads ?st3 + 2 * n\<rparr>)"
    using Suc.prems pq by (intro Suc.IH [OF n]) simp_all
  then show ?case
    using Suc.prems i by (simp add: timed_loop_step [OF i] t s add_elapsed_step)
qed


lemma load_u8_other_block:
  assumes "load_u8 acc st addr = Inr v"
    and "length (heap st) \<le> length hp"
    and "\<forall>b<length (heap st). (\<exists>bs. heap st ! b = Bytes bs) \<longrightarrow> hp ! b = heap st ! b"
  shows "load_u8 acc (st\<lparr>heap := hp, allocs := al, clock_reads := cl\<rparr>) addr = Inr v"
  using assms by (auto simp: load_u8_def split: ptr.splits if_splits block.splits)

lemma iteration_total:
  assumes al: "alloc_result pf (allocs st) = Some a'"
    and rd: "load_u8 SecretRead st addr = Inr v"
    and p: "p < length (heap st)" "heap st ! p = Doubles xs" "length xs = NUM_CACHE_LINES"
  shows "iteration pf addr (Ptr a p 0) st = Inr (measured pf p (Suc 0) xs st)"
proof -
  let ?st1 = "st\<lparr>heap := heap st @ [Raw ARRAY_SIZE], allocs := Suc (allocs st)\<rparr>"
  let ?q = "length (heap st)"
  have m: "malloc pf ARRAY_SIZE st = (Ptr a' ?q 0, ?st1)"
    using al by (simp add: malloc_def allocate_def)
  have rd1: "load_u8 SecretRead ?st1 addr = Inr v"
    using rd by (auto simp: load_u8_def nth_append split: ptr.splits if_splits block.splits)
  have "unat v < 256" using unsigned_less [of v, where 'a = nat] by simp
  then have "cacheLine_offset (unat v) < ARRAY_SIZE"
    by (simp add: cacheLine_offset_def slot_offset_def offsetof_cacheLine_def
        ARRAY_SIZE_def NUM_CACHE_LINES_256 sizeof_cache_line_t_def SPACING_def)
  then have t: "touch_cacheLine SecretDependentAccess ?st1 (Ptr a' ?q 0) (unat v) = Inr ()"
    by (simp add: touch_cacheLine_def)
  have l: "timed_loop pf (Ptr a' ?q 0) (Ptr a p 0) 0 ?st1 =
         Inr (?st1\<lparr>heap := (heap ?st1)[p := Doubles (add_elapsed pf (clock_reads ?st1) 0 xs)],
                 clock_reads := clock_reads ?st1 + 2 * NUM_CACHE_LINES\<rparr>)"
    using p by (intro timed_loop_total) (simp_all add: nth_append)
  obtain fl where f: "flush_cache_relaxed ?st1 (Ptr a' ?q 0) ARRAY_SIZE = Some (Inr fl)"
    using flush_cache_relaxed_allocated [of ?q ?st1 a'] by auto
  show ?thesis
    by (simp add: iteration_def m f rd1 t l measured_def)
qed

lemma measured_Suc:
  assumes "p < length (heap st)"
  shows "measured pf p n (add_elapsed pf (clock_reads st) 0 xs) (measured pf p (Suc 0) xs st) =
         measured pf p (Suc n) xs st"
proof -
  have c: "clock_reads st + 2 * NUM_CACHE_LINES + 2 * NUM_CACHE_LINES * n =
           clock_reads st + 2 * NUM_CACHE_LINES * Suc n"
    by simp
  have c0: "clock_reads st + 2 * NUM_CACHE_LINES * Suc 0 = clock_reads st + 2 * NUM_CACHE_LINES"
    by simp
  show ?thesis
    using assms
    by (simp add: measured_def list_update_append1 replicate_app_Cons_same c c0
        del: mult_Suc_right)
qed

lemma iter_loop_total:
  assumes "ITERATIONS - iter = n"
    and "\<forall>k<n. alloc_result pf (allocs st + k) \<noteq> None"
    and "load_u8 SecretRead st addr = Inr v"
    and "p < length (heap st)" "heap st ! p = Doubles xs" "length xs = NUM_CACHE_LINES"
  shows "iter_loop pf addr (Ptr a p 0) iter st = Inr (measured pf p n xs st)"
  using assms
proof (induction n arbitrary: iter st xs)
  case 0
  then show ?case
    by (simp add: iter_loop_done measured_def list_update_same_conv [THEN iffD2])
next
  case (Suc n)
  then have i: "iter < ITERATIONS" and n: "ITERATIONS - Suc iter = n" by simp_all
  from Suc.prems(2) obtain a' where al: "alloc_result pf (allocs st) = Some a'" by force
  let ?st1 = "measured pf p (Suc 0) xs st"
  let ?xs1 = "add_elapsed pf (clock_reads st) 0 xs"
  have it: "iteration pf addr (Ptr a p 0) st = Inr ?st1"
    using al Suc.prems by (intro iteration_total) simp_all
  have rd1: "load_u8 SecretRead ?st1 addr = Inr v"
    unfolding measured_def using Suc.prems
    by (intro load_u8_other_block) (auto simp: nth_append nth_list_update)
  have al1: "\<forall>k<n. alloc_result pf (allocs ?st1 + k) \<noteq> None"
    using Suc.prems(2) by (auto simp: measured_def)
  have "iter_loop pf addr (Ptr a p 0) (Suc iter) ?st1 = Inr (measured pf p n ?xs1 ?st1)"
    using Suc.prems
    by (intro Suc.IH [OF n al1 rd1]) (simp_all add: measured_def)
  then show ?case
    using Suc.prems by (simp add: iter_loop_step [OF i] it measured_Suc)
qed

lemma attempt_total:
  assumes "\<forall>k<ITERATIONS. alloc_result pf (allocs st + k) \<noteq> None"
    and "load_u8 SecretRead st addr = Inr v"
    and "p < length (heap st)" "heap st ! p = Doubles xs" "length xs = NUM_CACHE_LINES"
  shows "attempt pf addr (Ptr a p 0) bi st =
         Inr (best_loop (iter_sums pf (clock_reads st) ITERATIONS xs) 0 DBL_MAX bi,
              measured pf p ITERATIONS xs st)"
proof -
  have "iter_loop pf addr (Ptr a p 0) 0 st = Inr (measured pf p ITERATIONS xs st)"
    using assms by (intro iter_loop_total) simp_all
  moreover have "load_doubles (measured pf p ITERATIONS xs st) (Ptr a p 0) NUM_CACHE_LINES =
                 Inr (iter_sums pf (clock_reads st) ITERATIONS xs)"
    using assms by (simp add: load_doubles_def measured_def)
  ultimately show ?thesis by (simp add: attempt_def)
qed

subsection \<open>Runs on the concrete platforms\<close>

lemma vec_nth [simp]: "j < NUM_CACHE_LINES \<Longrightarrow> vec f ! j = Fin (f j)"
  by (simp add: vec_def)

lemma length_vec [simp]: "length (vec f) = NUM_CACHE_LINES"
  by (simp add: vec_def)

lemma add_elapsed_vec:
  assumes "fp_round pf = Fin"
    and "\<forall>j<NUM_CACHE_LINES. elapsed_at pf (c + 2 * j) = Fin (d j)"
  shows "add_elapsed pf c 0 (vec f) = vec (\<lambda>j. f j + d j)"
  using assms by (auto simp: add_elapsed_def vec_def)

lemma iter_sums_vec:
  assumes "fp_round pf = Fin"
    and "\<forall>m<n. \<forall>j<NUM_CACHE_LINES. elapsed_at pf (c + 2 * NUM_CACHE_LINES * m + 2 * j) = Fin (d j)"
  shows "iter_sums pf c n (vec f) = vec (\<lambda>j. f j + real n * d j)"
  using assms
proof (induction n arbitrary: c f)
  case 0
  then show ?case by simp
next
  case (Suc n)
  from Suc.prems(2) have "\<forall>j<NUM_CACHE_LINES. elapsed_at pf (c + 2 * j) = Fin (d j)"
    by force
  with Suc.prems(1) have a: "add_elapsed pf c 0 (vec f) = vec (\<lambda>j. f j + d j)"
    by (rule add_elapsed_vec)
  have "\<forall>m<n. \<forall>j<NUM_CACHE_LINES.
          elapsed_at pf (c + 2 * NUM_CACHE_LINES + 2 * NUM_CACHE_LINES * m + 2 * j) = Fin (d j)"
  proof (intro allI impI)
    fix m j assume "m < n" "j < NUM_CACHE_LINES"
    with Suc.prems(2) have "elapsed_at pf (c + 2 * NUM_CACHE_LINES * Suc m + 2 * j) = Fin (d j)"
      by (metis Suc_less_eq)
    then show "elapsed_at pf (c + 2 * NUM_CACHE_LINES + 2 * NUM_CACHE_LINES * m + 2 * j) = Fin (d j)"
      by (simp add: algebra_simps)
  qed
  from Suc.IH [OF Suc.prems(1) this]
  have "iter_sums pf (c + 2 * NUM_CACHE_LINES) n (vec (\<lambda>j. f j + d j)) =
        vec (\<lambda>j. f j + d j + real n * d j)" .
  then show ?case by (simp add: a algebra_simps)
qed

lemma measured_run_state:
  "measured pf (Suc 0) ITERATIONS xs (run_state n xs) =
   run_state (Suc n) (iter_sums pf (clock_reads (run_state n xs)) ITERATIONS xs)"
  by (simp add: measured_def run_state_def replicate_add [symmetric] algebra_simps
      del: replicate_add)

lemma attempt_run_state:
  assumes rnd: "fp_round pf = Fin"
    and al: "\<forall>k. alloc_result pf (Suc k) \<noteq> None"
    and d: "\<forall>m<ITERATIONS. \<forall>j<NUM_CACHE_LINES.
              elapsed_at pf (2 * NUM_CACHE_LINES * ITERATIONS * n + 2 * NUM_CACHE_LINES * m + 2 * j)
                = Fin (d j)"
  shows "attempt pf secret_ptr (Ptr a 1 0) bi (run_state n (vec f)) =
         Inr (best_loop (vec (\<lambda>j. f j + real ITERATIONS * d j)) 0 DBL_MAX bi,
              run_state (Suc n) (vec (\<lambda>j. f j + real ITERATIONS * d j)))"
proof -
  have s: "iter_sums pf (clock_reads (run_state n (vec f))) ITERATIONS (vec f) =
           vec (\<lambda>j. f j + real ITERATIONS * d j)"
    using rnd d by (intro iter_sums_vec) (simp_all add: run_state_def)
  have "attempt pf secret_ptr (Ptr a 1 0) bi (run_state n (vec f)) =
         Inr (best_loop (iter_sums pf (clock_reads (run_state n (vec f))) ITERATIONS (vec f))
                0 DBL_MAX bi,
              measured pf 1 ITERATIONS (vec f) (run_state n (vec f)))"
    using al
    by (intro attempt_total [where v = VALUE])
      (simp_all add: run_state_def load_u8_def secret_ptr_def)
  then show ?thesis by (simp add: measured_run_state s)
qed

lemma calloc_start_state:
  "alloc_result pf 0 = Some a \<Longrightarrow>
   calloc_doubles pf NUM_CACHE_LINES start_state = (Ptr a 1 0, run_state 0 (vec (\<lambda>j. 0)))"
  by (simp add: calloc_doubles_def allocate_def start_state_def run_state_def vec_def
      map_replicate_const)

lemma ITERATIONS_20: "ITERATIONS = 20"
  by (simp add: ITERATIONS_def)

lemma steady_simps:
  "fp_round steady_platform = Fin"
  "alloc_result steady_platform k = Some (of_nat (4294967296 + ARRAY_SIZE * k))"
  "tbi_numer steady_platform = 1" "tbi_denom steady_platform = 1"
  "mach_absolute_time steady_platform k = of_nat k"
  by (simp_all add: steady_platform_def)

lemma elapsed_at_steady: "elapsed_at steady_platform k = Fin 1"
  by (simp add: elapsed_at_def steady_simps u64_to_dbl_def u32_ratio_def)

lemma late_signal_simps:
  "fp_round late_signal_platform = Fin"
  "alloc_result late_signal_platform k = Some (of_nat (4294967296 + ARRAY_SIZE * k))"
  "tbi_numer late_signal_platform = 1" "tbi_denom late_signal_platform = 1"
  by (simp_all add: late_signal_platform_def steady_platform_def)

lemma elapsed_at_late_signal:
  assumes "even k"
  shows "elapsed_at late_signal_platform k =
         Fin (if 10240 \<le> k \<and> (k div 2) mod 256 \<noteq> 200 then 2 else 1)"
proof -
  have d: "Suc k div 2 = k div 2" using assms by simp
  have le: "10239 \<le> k \<longleftrightarrow> 10240 \<le> k" using assms by presburger
  have "mach_absolute_time late_signal_platform (Suc k) - mach_absolute_time late_signal_platform k
        = (if 10240 \<le> k \<and> (k div 2) mod 256 \<noteq> 200 then 2 else 1)"
    using assms by (simp add: late_signal_platform_def d le)
  then show ?thesis
    by (simp add: elapsed_at_def late_signal_simps u64_to_dbl_def u32_ratio_def)
qed

lemma first_min_const: "first_min (vec (\<lambda>j. c)) 0 0"
  by (simp add: first_min_def NUM_CACHE_LINES_256)

lemma attempts_steady:
  "n \<le> RETRIES_IF_ZERO \<Longrightarrow>
   attempts steady_platform secret_ptr (Ptr a 1 0) n (None, run_state 0 (vec (\<lambda>j. 0))) =
   Inr (if n = 0 then None else Some 0, run_state n (vec (\<lambda>j. 20 * real n)))"
proof (induction n)
  case 0
  then show ?case by simp
next
  case (Suc n)
  let ?bi = "if n = 0 then None else Some (0 :: u8)"
  have a: "attempt steady_platform secret_ptr (Ptr a 1 0) ?bi (run_state n (vec (\<lambda>j. 20 * real n))) =
         Inr (best_loop (vec (\<lambda>j. 20 * real n + real ITERATIONS * 1)) 0 DBL_MAX ?bi,
              run_state (Suc n) (vec (\<lambda>j. 20 * real n + real ITERATIONS * 1)))"
    by (rule attempt_run_state) (simp_all add: steady_simps elapsed_at_steady)
  have v: "(\<lambda>j::nat. 20 * real n + real ITERATIONS * 1) = (\<lambda>j. 20 * real (Suc n))"
    by (simp add: ITERATIONS_20 algebra_simps)
  from Suc.prems have "real n < 50" by (simp add: RETRIES_IF_ZERO_def)
  then have "20 * real (Suc n) < (2 ^ 53 - 1) * 2 ^ 971" by simp
  then have "dlt (vec (\<lambda>j. 20 * real (Suc n)) ! 0) DBL_MAX"
    by (simp add: NUM_CACHE_LINES_256 DBL_MAX_def)
  with first_min_const have "best_loop (vec (\<lambda>j. 20 * real (Suc n))) 0 DBL_MAX ?bi = Some (of_nat 0)"
    by (rule best_loop_eq)
  with a v Suc show ?case by simp
qed

lemma decision_steady:
  assumes "k < RETRIES_IF_ZERO"
  shows "decision steady_platform secret_ptr start_state k = Some 0"
proof -
  have c: "calloc_doubles steady_platform NUM_CACHE_LINES start_state =
        (Ptr 4294967296 1 0, run_state 0 (vec (\<lambda>j. 0)))"
    by (rule calloc_start_state) (simp add: steady_simps)
  from assms have "Suc k \<le> RETRIES_IF_ZERO" by simp
  from attempts_steady [OF this] show ?thesis
    by (simp add: decision_def after_attempts_def c)
qed

lemma late_signal_first_attempt:
  "\<forall>m<ITERATIONS. \<forall>j<NUM_CACHE_LINES.
     elapsed_at late_signal_platform
       (2 * NUM_CACHE_LINES * ITERATIONS * 0 + 2 * NUM_CACHE_LINES * m + 2 * j) = Fin 1"
proof (intro allI impI)
  fix m j assume "m < ITERATIONS" "j < NUM_CACHE_LINES"
  then have "512 * m + 2 * j < 10240" by (simp add: ITERATIONS_20 NUM_CACHE_LINES_256)
  then show "elapsed_at late_signal_platform
       (2 * NUM_CACHE_LINES * ITERATIONS * 0 + 2 * NUM_CACHE_LINES * m + 2 * j) = Fin 1"
    by (simp add: elapsed_at_late_signal NUM_CACHE_LINES_256)
qed

lemma late_signal_second_attempt:
  "\<forall>m<ITERATIONS. \<forall>j<NUM_CACHE_LINES.
     elapsed_at late_signal_platform
       (2 * NUM_CACHE_LINES * ITERATIONS * 1 + 2 * NUM_CACHE_LINES * m + 2 * j) =
     Fin (late_profile j)"
proof (intro allI impI)
  fix m j assume "m < ITERATIONS" and j: "j < NUM_CACHE_LINES"
  have "(10240 + 512 * m + 2 * j) div 2 = j + 256 * (20 + m)" by simp
  moreover have "j < 256" using j by (simp add: NUM_CACHE_LINES_256)
  ultimately have "((10240 + 512 * m + 2 * j) div 2) mod 256 = j"
    by (simp only: mod_mult_self2 mod_less)
  then show "elapsed_at late_signal_platform
       (2 * NUM_CACHE_LINES * ITERATIONS * 1 + 2 * NUM_CACHE_LINES * m + 2 * j) =
     Fin (late_profile j)"
    by (simp add: elapsed_at_late_signal NUM_CACHE_LINES_256 ITERATIONS_20 late_profile_def)
qed

lemma first_min_late: "first_min (vec (\<lambda>j. 20 + 20 * late_profile j)) 0 200"
  by (auto simp: first_min_def NUM_CACHE_LINES_256 late_profile_def)

lemma attempts_late_signal_1:
  "attempts late_signal_platform secret_ptr sum_ptr 1 (None, run_state 0 (vec (\<lambda>j. 0))) =
   Inr (Some 0, run_state (Suc 0) (vec (\<lambda>j. 20)))"
proof -
  have "attempt late_signal_platform secret_ptr sum_ptr None (run_state 0 (vec (\<lambda>j. 0))) =
         Inr (best_loop (vec (\<lambda>j. 0 + real ITERATIONS * 1)) 0 DBL_MAX None,
              run_state (Suc 0) (vec (\<lambda>j. 0 + real ITERATIONS * 1)))"
    using late_signal_first_attempt
    unfolding sum_ptr_def by (intro attempt_run_state) (simp_all add: late_signal_simps)
  moreover have "best_loop (vec (\<lambda>j. 20)) 0 DBL_MAX None = Some (of_nat 0)"
    using first_min_const by (rule best_loop_eq) (simp add: NUM_CACHE_LINES_256 DBL_MAX_def)
  ultimately show ?thesis by (simp add: ITERATIONS_20)
qed

lemma attempt_late_signal_2:
  "attempt late_signal_platform secret_ptr sum_ptr (Some 0) (run_state (Suc 0) (vec (\<lambda>j. 20))) =
   Inr (Some 200, run_state (Suc (Suc 0)) (vec (\<lambda>j. 20 + 20 * late_profile j)))"
proof -
  have "attempt late_signal_platform secret_ptr sum_ptr (Some 0) (run_state (Suc 0) (vec (\<lambda>j. 20))) =
         Inr (best_loop (vec (\<lambda>j. 20 + real ITERATIONS * late_profile j)) 0 DBL_MAX (Some 0),
              run_state (Suc (Suc 0)) (vec (\<lambda>j. 20 + real ITERATIONS * late_profile j)))"
    using late_signal_second_attempt
    unfolding sum_ptr_def by (intro attempt_run_state) (simp_all add: late_signal_simps)
  moreover have "best_loop (vec (\<lambda>j. 20 + 20 * late_profile j)) 0 DBL_MAX (Some 0) = Some (of_nat 200)"
    using first_min_late
    by (rule best_loop_eq) (simp add: NUM_CACHE_LINES_256 DBL_MAX_def late_profile_def)
  ultimately show ?thesis by (simp add: ITERATIONS_20)
qed

lemma calloc_late_signal:
  "calloc_doubles late_signal_platform NUM_CACHE_LINES start_state =
        (sum_ptr, run_state 0 (vec (\<lambda>j. 0)))"
  unfolding sum_ptr_def by (rule calloc_start_state) (simp add: late_signal_simps)

lemma decision_late_signal:
  "decision late_signal_platform secret_ptr start_state 0 = Some 0"
  "decision late_signal_platform secret_ptr start_state 1 = Some 200"
proof -
  show "decision late_signal_platform secret_ptr start_state 0 = Some 0"
    using attempts_late_signal_1
    by (simp add: decision_def after_attempts_def calloc_late_signal)
  have "attempts late_signal_platform secret_ptr sum_ptr (Suc 1)
          (None, run_state 0 (vec (\<lambda>j. 0))) =
        Inr (Some 200, run_state (Suc (Suc 0)) (vec (\<lambda>j. 20 + 20 * late_profile j)))"
    unfolding attempts.simps(2) [of _ _ _ 1] attempts_late_signal_1
    by (simp add: attempt_late_signal_2)
  then show "decision late_signal_platform secret_ptr start_state 1 = Some 200"
    by (simp add: decision_def after_attempts_def calloc_late_signal)
qed

lemma inferb_late_signal:
  "inferb late_signal_platform secret_ptr start_state =
   Inr (200, run_state (Suc (Suc 0)) (vec (\<lambda>j. 20 + 20 * late_profile j)))"
proof -
  have a1: "attempt late_signal_platform secret_ptr sum_ptr None
              (run_state 0 (vec (\<lambda>j. 0))) = Inr (Some 0, run_state (Suc 0) (vec (\<lambda>j. 20)))"
    using attempts_late_signal_1 by simp
  have r0: "(0::nat) < RETRIES_IF_ZERO" and r1: "Suc 0 < RETRIES_IF_ZERO"
    by (simp_all add: RETRIES_IF_ZERO_def)
  have "try_loop late_signal_platform secret_ptr sum_ptr 0 None
          (run_state 0 (vec (\<lambda>j. 0))) =
        Inr (Some 200, run_state (Suc (Suc 0)) (vec (\<lambda>j. 20 + 20 * late_profile j)))"
    by (simp add: try_loop_step [OF r0] a1 try_loop_step [OF r1] attempt_late_signal_2)
  then show ?thesis by (simp add: inferb_def calloc_late_signal)
qed

lemma iteration_null_array:
  assumes "alloc_result pf (allocs st) = None"
  shows "iteration pf addr sump st = Inl (NullDeref CacheFlush)"
proof -
  have m: "malloc pf ARRAY_SIZE st = (Null, st\<lparr>allocs := Suc (allocs st)\<rparr>)"
    using assms by (simp add: malloc_def allocate_def)
  show ?thesis by (simp add: iteration_def m flush_cache_relaxed_Null)
qed

lemma attempt_null_array:
  assumes "alloc_result pf (allocs st) = None"
  shows "attempt pf addr sump bi st = Inl (NullDeref CacheFlush)"
proof -
  have i: "(0::nat) < ITERATIONS" by (simp add: ITERATIONS_def)
  show ?thesis
    by (simp add: attempt_def iter_loop_step [OF i] iteration_null_array [OF assms])
qed

lemma inferb_null_array:
  assumes "alloc_result pf (Suc (allocs st)) = None"
  shows "inferb pf addr st = Inl (NullDeref CacheFlush)"
proof -
  obtain sump st1 where c: "calloc_doubles pf NUM_CACHE_LINES st = (sump, st1)" by force
  then have al: "allocs st1 = Suc (allocs st)"
    using calloc_counts [of pf NUM_CACHE_LINES st] by simp
  have r: "(0::nat) < RETRIES_IF_ZERO" by (simp add: RETRIES_IF_ZERO_def)
  have "attempt pf addr sump None st1 = Inl (NullDeref CacheFlush)"
    using assms by (intro attempt_null_array) (simp add: al)
  then show ?thesis by (simp add: inferb_def c try_loop_step [OF r])
qed

lemma inferb_null_sum:
  assumes "alloc_result pf (allocs st) = None" "alloc_result pf (Suc (allocs st)) = Some a"
    and "load_u8 SecretRead st addr = Inr v"
  shows "inferb pf addr st = Inl (NullDeref SumUpdate)"
proof -
  let ?st1 = "st\<lparr>allocs := Suc (allocs st)\<rparr>"
  let ?st2 = "st\<lparr>heap := heap st @ [Raw ARRAY_SIZE], allocs := Suc (Suc (allocs st))\<rparr>"
  let ?array = "Ptr a (length (heap st)) 0"
  have c: "calloc_doubles pf NUM_CACHE_LINES st = (Null, ?st1)"
    using assms(1) by (simp add: calloc_doubles_def allocate_def)
  have m: "malloc pf ARRAY_SIZE ?st1 = (?array, ?st2)"
    using assms(2) by (simp add: malloc_def allocate_def)
  obtain fl where f: "flush_cache_relaxed ?st2 ?array ARRAY_SIZE = Some (Inr fl)"
    using flush_cache_relaxed_allocated [of "length (heap st)" ?st2 a] by auto
  have rd: "load_u8 SecretRead ?st2 addr = Inr v"
    by (rule load_u8_frame [OF assms(3)]) (auto simp: nth_append)
  have "unat v < 256" using unsigned_less [of v, where 'a = nat] by simp
  then have off: "cacheLine_offset (unat v) < ARRAY_SIZE"
    by (simp add: cacheLine_offset_def slot_offset_def offsetof_cacheLine_def
        ARRAY_SIZE_def NUM_CACHE_LINES_256 sizeof_cache_line_t_def SPACING_def)
  have t: "touch_cacheLine SecretDependentAccess ?st2 ?array (unat v) = Inr ()"
    using off by (simp add: touch_cacheLine_def)
  have n: "(0::nat) < NUM_CACHE_LINES" by (simp add: NUM_CACHE_LINES_256)
  have "cacheLine_offset 0 < ARRAY_SIZE"
    by (simp add: cacheLine_offset_def slot_offset_def offsetof_cacheLine_def ARRAY_SIZE_val)
  then have l: "timed_loop pf ?array Null 0 ?st2 = Inl (NullDeref SumUpdate)"
    by (simp add: timed_loop_step [OF n] touch_cacheLine_def add_to_sum_def)
  have it: "iteration pf addr Null ?st1 = Inl (NullDeref SumUpdate)"
    by (simp add: iteration_def m f rd t l)
  have i: "(0::nat) < ITERATIONS" by (simp add: ITERATIONS_def)
  have r: "(0::nat) < RETRIES_IF_ZERO" by (simp add: RETRIES_IF_ZERO_def)
  show ?thesis
    by (simp add: inferb_def c try_loop_step [OF r] attempt_def iter_loop_step [OF i] it)
qed

lemma start_state_readable: "load_u8 SecretRead start_state secret_ptr = Inr VALUE"
  by (simp add: load_u8_def start_state_def secret_ptr_def)

subsection \<open>The retry loop on concrete runs\<close>

text \<open>
  Claim C2 on the steady platform: every attempt decides 0, and \<open>inferb\<close> returns 0
  after 50 attempts, which make 1001 allocations and 512000 clock reads.
\<close>

theorem inferb_terminates_witness:
  "inferb steady_platform secret_ptr start_state \<noteq> Inl NoReturn \<and>
   (\<exists>st'. inferb steady_platform secret_ptr start_state = Inr (0, st') \<and>
      allocs st' = 1001 \<and> clock_reads st' = 512000)"
proof -
  have "\<forall>k<RETRIES_IF_ZERO. decision steady_platform secret_ptr start_state k = Some 0"
    by (simp add: decision_steady)
  with inferb_terminates [of steady_platform secret_ptr start_state]
  show ?thesis
    by (auto simp: start_state_def RETRIES_IF_ZERO_def ITERATIONS_def NUM_CACHE_LINES_256)
qed

text \<open>
  Claim C2 as stated fails where \<^verbatim>\<open>calloc\<close> returns \<^verbatim>\<open>NULL\<close>: the first
  \<^verbatim>\<open>sum[0] += ...\<close> dereferences the null pointer, and \<open>inferb\<close> returns no byte.
\<close>

theorem inferb_no_byte_counterexample:
  "inferb no_sum_memory secret_ptr start_state = Inl (NullDeref SumUpdate)"
  by (rule inferb_null_sum [OF _ _ start_state_readable])
    (simp_all add: no_sum_memory_def start_state_def)

text \<open>
  Claim C4 on the late-signal platform: attempt 1 decides 0, attempt 2 decides 200,
  and \<open>inferb\<close> returns 200 in the state after two attempts (41 allocations, 20480
  clock reads): there is no third attempt.
\<close>

theorem inferb_returns_first_nonzero_witness:
  "\<exists>st'. inferb late_signal_platform secret_ptr start_state = Inr (200, st') \<and>
     after_attempts late_signal_platform secret_ptr start_state 2 = Inr (Some 200, st') \<and>
     allocs st' = 41 \<and> clock_reads st' = 20480"
proof -
  have k: "1 < RETRIES_IF_ZERO" by (simp add: RETRIES_IF_ZERO_def)
  have z: "\<forall>j<1. decision late_signal_platform secret_ptr start_state j = Some 0"
    by (simp add: decision_late_signal)
  have nz: "(200 :: u8) \<noteq> 0" by simp
  from inferb_returns_first_nonzero [OF k z decision_late_signal(2) nz]
  show ?thesis
    by (auto simp: start_state_def ITERATIONS_def NUM_CACHE_LINES_256 numeral_2_eq_2)
qed

text \<open>Claim C9 on the same run: the secret byte is \<open>VALUE\<close> before and after.\<close>

theorem inferb_preserves_memory_witness:
  "\<exists>st'. inferb late_signal_platform secret_ptr start_state = Inr (200, st') \<and>
     heap st' ! 0 = Bytes [VALUE] \<and>
     load_u8 SecretRead st' secret_ptr = Inr VALUE"
proof -
  let ?st' = "run_state (Suc (Suc 0)) (vec (\<lambda>j. 20 + 20 * late_profile j))"
  from inferb_preserves_memory [OF inferb_late_signal]
  have "heap ?st' ! 0 = heap start_state ! 0"
    and "load_u8 SecretRead ?st' secret_ptr = Inr VALUE"
    using start_state_readable by (simp_all add: start_state_def)
  with inferb_late_signal show ?thesis by (simp add: start_state_def)
qed

subsection \<open>A failed allocation\<close>

text \<open>
  Claim C5, as amended. \<open>inferb\<close> never tests what the allocator returns. When the
  allocation of the probe array fails in an iteration, the iteration goes on with the
  null pointer and hands it to \<open>flush_cache_relaxed\<close>, whose first \<^verbatim>\<open>DC CIVAC\<close>, on
  address 0, faults: the run stops there, at a use of the failed allocation. The read of
  the secret, the secret-dependent access and the timed loop are not reached, no retry
  takes place and no byte is returned; no error value is reported to the caller either.
  The same holds of \<open>inferb\<close> as a whole when its first probe-array allocation fails.
\<close>

theorem failed_malloc_is_dereferenced:
  "(alloc_result pf (allocs st) = None \<longrightarrow>
      fst (malloc pf ARRAY_SIZE st) = Null \<and>
      flush_cache_relaxed (snd (malloc pf ARRAY_SIZE st)) Null ARRAY_SIZE =
        Some (Inl (NullDeref CacheFlush)) \<and>
      iteration pf addr sump st = Inl (NullDeref CacheFlush) \<and>
      (iter < ITERATIONS \<longrightarrow>
         iter_loop pf addr sump iter st = Inl (NullDeref CacheFlush)) \<and>
      attempt pf addr sump bi st = Inl (NullDeref CacheFlush) \<and>
      (tr < RETRIES_IF_ZERO \<longrightarrow>
         try_loop pf addr sump tr bi st = Inl (NullDeref CacheFlush))) \<and>
   (alloc_result pf (Suc (allocs st)) = None \<longrightarrow>
      inferb pf addr st = Inl (NullDeref CacheFlush))"
proof (intro conjI impI)
  assume a: "alloc_result pf (allocs st) = None"
  then show "fst (malloc pf ARRAY_SIZE st) = Null" by (simp add: malloc_def allocate_def)
  show "flush_cache_relaxed (snd (malloc pf ARRAY_SIZE st)) Null ARRAY_SIZE =
        Some (Inl (NullDeref CacheFlush))"
    by (rule flush_cache_relaxed_Null)
  from a show it: "iteration pf addr sump st = Inl (NullDeref CacheFlush)"
    by (rule iteration_null_array)
  from a show at: "attempt pf addr sump bi st = Inl (NullDeref CacheFlush)"
    by (rule attempt_null_array)
  {
    assume "iter < ITERATIONS"
    then show "iter_loop pf addr sump iter st = Inl (NullDeref CacheFlush)"
      by (simp add: iter_loop_step it)
  }
  {
    assume "tr < RETRIES_IF_ZERO"
    then show "try_loop pf addr sump tr bi st = Inl (NullDeref CacheFlush)"
      by (simp add: try_loop_step at)
  }
next
  assume "alloc_result pf (Suc (allocs st)) = None"
  then show "inferb pf addr st = Inl (NullDeref CacheFlush)"
    by (rule inferb_null_array)
qed

text \<open>The theorem on a platform where every \<^verbatim>\<open>malloc\<close> fails, in the state the first attempt starts in.\<close>

theorem failed_malloc_is_dereferenced_witness:
  "alloc_result no_probe_memory (allocs (run_state 0 (vec (\<lambda>j. 0)))) = None \<and>
   iteration no_probe_memory secret_ptr sum_ptr (run_state 0 (vec (\<lambda>j. 0))) =
     Inl (NullDeref CacheFlush) \<and>
   try_loop no_probe_memory secret_ptr sum_ptr 0 None (run_state 0 (vec (\<lambda>j. 0))) =
     Inl (NullDeref CacheFlush)"
proof -
  have a: "alloc_result no_probe_memory (allocs (run_state 0 (vec (\<lambda>j. 0)))) = None"
    by (simp add: no_probe_memory_def run_state_def)
  have r: "(0::nat) < RETRIES_IF_ZERO" by (simp add: RETRIES_IF_ZERO_def)
  from failed_malloc_is_dereferenced
    [of no_probe_memory "run_state 0 (vec (\<lambda>j. 0))" secret_ptr sum_ptr 0 None 0,
      THEN conjunct1, THEN mp, OF a] a r
  show ?thesis by blast
qed

text \<open>
  Claim C5 as stated fails on that platform: \<open>inferb\<close> carries on with the failed
  allocation up to the fault of the cache flush on the null array; it does not hand an
  error to its caller.
\<close>

theorem failed_malloc_counterexample:
  "inferb no_probe_memory secret_ptr start_state = Inl (NullDeref CacheFlush)"
  by (rule inferb_null_array) (simp add: no_probe_memory_def start_state_def)

subsection \<open>The read of an unassigned \<^verbatim>\<open>bestIndex\<close>\<close>






subsection \<open>The sample vector across attempts\<close>

lemma zero_bias_simps:
  "fp_round zero_bias_platform = Fin"
  "alloc_result zero_bias_platform k = Some (of_nat (4294967296 + ARRAY_SIZE * k))"
  "tbi_numer zero_bias_platform = 1" "tbi_denom zero_bias_platform = 1"
  by (simp_all add: zero_bias_platform_def steady_platform_def)

lemma elapsed_at_zero_bias:
  assumes "even k"
  shows "elapsed_at zero_bias_platform k =
         Fin (if k div 2 < 5120 then biased_profile (k div 2 mod 256)
              else signal_profile (k div 2 mod 256))"
proof -
  have d: "Suc k div 2 = k div 2" using assms by simp
  have "mach_absolute_time zero_bias_platform (Suc k) - mach_absolute_time zero_bias_platform k
        = (if k div 2 < 5120 then (if k div 2 mod 256 = 0 then 1 else 101)
           else (if k div 2 mod 256 = 42 then 1 else 2))"
    using assms by (simp add: zero_bias_platform_def d)
  then show ?thesis
    by (simp add: elapsed_at_def zero_bias_simps u64_to_dbl_def u32_ratio_def
        biased_profile_def signal_profile_def)
qed

lemma zero_bias_index:
  assumes "j < NUM_CACHE_LINES"
  shows "(2 * NUM_CACHE_LINES * ITERATIONS * n + 2 * NUM_CACHE_LINES * m + 2 * j) div 2 =
           j + 256 * (20 * n + m)"
    and "(2 * NUM_CACHE_LINES * ITERATIONS * n + 2 * NUM_CACHE_LINES * m + 2 * j) div 2 mod 256 = j"
    and "even (2 * NUM_CACHE_LINES * ITERATIONS * n + 2 * NUM_CACHE_LINES * m + 2 * j)"
    and "(j + 256 * (20 * n + m)) mod 256 = j"
proof -
  have e: "2 * NUM_CACHE_LINES * ITERATIONS * n + 2 * NUM_CACHE_LINES * m + 2 * j =
           2 * (j + 256 * (20 * n + m))"
    by (simp add: NUM_CACHE_LINES_256 ITERATIONS_20)
  show 1: "(2 * NUM_CACHE_LINES * ITERATIONS * n + 2 * NUM_CACHE_LINES * m + 2 * j) div 2 =
           j + 256 * (20 * n + m)"
    unfolding e by simp
  have "j < 256" using assms by (simp add: NUM_CACHE_LINES_256)
  then show 4: "(j + 256 * (20 * n + m)) mod 256 = j"
    by (simp only: mod_mult_self2 mod_less)
  then show "(2 * NUM_CACHE_LINES * ITERATIONS * n + 2 * NUM_CACHE_LINES * m + 2 * j) div 2 mod 256 = j"
    by (simp only: 1)
  show "even (2 * NUM_CACHE_LINES * ITERATIONS * n + 2 * NUM_CACHE_LINES * m + 2 * j)"
    unfolding e by simp
qed

lemma zero_bias_first_attempt:
  "\<forall>m<ITERATIONS. \<forall>j<NUM_CACHE_LINES.
     elapsed_at zero_bias_platform
       (2 * NUM_CACHE_LINES * ITERATIONS * 0 + 2 * NUM_CACHE_LINES * m + 2 * j) =
     Fin (biased_profile j)"
proof (intro allI impI)
  fix m j assume m: "m < ITERATIONS" and j: "j < NUM_CACHE_LINES"
  from m j have "j + 256 * (20 * 0 + m) < 5120" by (simp add: ITERATIONS_20 NUM_CACHE_LINES_256)
  then show "elapsed_at zero_bias_platform
       (2 * NUM_CACHE_LINES * ITERATIONS * 0 + 2 * NUM_CACHE_LINES * m + 2 * j) =
     Fin (biased_profile j)"
    unfolding elapsed_at_zero_bias [OF zero_bias_index(3) [OF j]]
      zero_bias_index(1) [OF j] zero_bias_index(4) [OF j]
    by simp
qed

lemma zero_bias_later_attempt:
  "\<forall>m<ITERATIONS. \<forall>j<NUM_CACHE_LINES.
     elapsed_at zero_bias_platform
       (2 * NUM_CACHE_LINES * ITERATIONS * Suc n + 2 * NUM_CACHE_LINES * m + 2 * j) =
     Fin (signal_profile j)"
proof (intro allI impI)
  fix m j assume m: "m < ITERATIONS" and j: "j < NUM_CACHE_LINES"
  have "\<not> j + 256 * (20 * Suc n + m) < 5120" by simp
  then show "elapsed_at zero_bias_platform
       (2 * NUM_CACHE_LINES * ITERATIONS * Suc n + 2 * NUM_CACHE_LINES * m + 2 * j) =
     Fin (signal_profile j)"
    unfolding elapsed_at_zero_bias [OF zero_bias_index(3) [OF j]]
      zero_bias_index(1) [OF j] zero_bias_index(4) [OF j]
    by simp
qed

lemma first_min_zero_bias:
  assumes "n < RETRIES_IF_ZERO"
  shows "first_min (vec (\<lambda>j. 20 * biased_profile j + 20 * real n * signal_profile j)) 0 0"
proof -
  from assms have "real n < 50" by (simp add: RETRIES_IF_ZERO_def)
  then show ?thesis
    by (auto simp: first_min_def NUM_CACHE_LINES_256 biased_profile_def signal_profile_def)
qed

lemma first_min_signal: "first_min (vec (\<lambda>j. 20 * signal_profile j)) 0 42"
  by (auto simp: first_min_def NUM_CACHE_LINES_256 signal_profile_def)

lemma attempts_zero_bias:
  "n < RETRIES_IF_ZERO \<Longrightarrow>
   attempts zero_bias_platform secret_ptr sum_ptr (Suc n) (None, run_state 0 (vec (\<lambda>j. 0))) =
   Inr (Some 0,
        run_state (Suc n) (vec (\<lambda>j. 20 * biased_profile j + 20 * real n * signal_profile j)))"
proof (induction n)
  case 0
  have "attempt zero_bias_platform secret_ptr sum_ptr None (run_state 0 (vec (\<lambda>j. 0))) =
         Inr (best_loop (vec (\<lambda>j. 0 + real ITERATIONS * biased_profile j)) 0 DBL_MAX None,
              run_state (Suc 0) (vec (\<lambda>j. 0 + real ITERATIONS * biased_profile j)))"
    using zero_bias_first_attempt
    unfolding sum_ptr_def by (intro attempt_run_state) (simp_all add: zero_bias_simps)
  moreover have "best_loop (vec (\<lambda>j. 20 * biased_profile j + 20 * real 0 * signal_profile j))
                   0 DBL_MAX None = Some (of_nat 0)"
    using first_min_zero_bias [OF 0]
    by (rule best_loop_eq) (simp add: NUM_CACHE_LINES_256 DBL_MAX_def biased_profile_def)
  ultimately show ?case by (simp add: ITERATIONS_20)
next
  case (Suc n)
  let ?f = "\<lambda>j. 20 * biased_profile j + 20 * real n * signal_profile j"
  let ?g = "\<lambda>j. 20 * biased_profile j + 20 * real (Suc n) * signal_profile j"
  from Suc.prems have n: "n < RETRIES_IF_ZERO" by simp
  have g: "(\<lambda>j. ?f j + real ITERATIONS * signal_profile j) = ?g"
    by (simp add: ITERATIONS_20 algebra_simps)
  have "attempt zero_bias_platform secret_ptr sum_ptr (Some 0) (run_state (Suc n) (vec ?f)) =
         Inr (best_loop (vec (\<lambda>j. ?f j + real ITERATIONS * signal_profile j)) 0 DBL_MAX (Some 0),
              run_state (Suc (Suc n)) (vec (\<lambda>j. ?f j + real ITERATIONS * signal_profile j)))"
    using zero_bias_later_attempt [of n]
    unfolding sum_ptr_def by (intro attempt_run_state) (simp_all add: zero_bias_simps)
  then have a: "attempt zero_bias_platform secret_ptr sum_ptr (Some 0) (run_state (Suc n) (vec ?f)) =
         Inr (best_loop (vec ?g) 0 DBL_MAX (Some 0), run_state (Suc (Suc n)) (vec ?g))"
    by (simp only: g)
  from Suc.prems have "real (Suc n) < 50" by (simp add: RETRIES_IF_ZERO_def)
  then have "20 * biased_profile 0 + 20 * real (Suc n) * signal_profile 0 < (2 ^ 53 - 1) * 2 ^ 971"
    by (simp add: biased_profile_def signal_profile_def)
  then have "dlt (vec ?g ! 0) DBL_MAX"
    by (simp add: NUM_CACHE_LINES_256 DBL_MAX_def)
  with first_min_zero_bias [OF Suc.prems]
  have "best_loop (vec ?g) 0 DBL_MAX (Some 0) = Some (of_nat 0)"
    by (rule best_loop_eq)
  then have b: "best_loop (vec ?g) 0 DBL_MAX (Some 0) = Some 0" by simp
  have "attempts zero_bias_platform secret_ptr sum_ptr (Suc (Suc n))
          (None, run_state 0 (vec (\<lambda>j. 0))) =
        attempt zero_bias_platform secret_ptr sum_ptr (Some 0) (run_state (Suc n) (vec ?f))"
    unfolding attempts.simps(2) [of _ _ _ "Suc n"] Suc.IH [OF n] by simp
  also have "\<dots> = Inr (best_loop (vec ?g) 0 DBL_MAX (Some 0), run_state (Suc (Suc n)) (vec ?g))"
    by (rule a)
  also have "\<dots> = Inr (Some 0, run_state (Suc (Suc n)) (vec ?g))"
    by (simp only: b)
  finally show ?case .
qed

lemma attempt_zero_bias_reset:
  "attempt zero_bias_platform secret_ptr sum_ptr (Some 0) (run_state (Suc 0) (vec (\<lambda>j. 0))) =
   Inr (Some 42, run_state (Suc (Suc 0)) (vec (\<lambda>j. 20 * signal_profile j)))"
proof -
  have "attempt zero_bias_platform secret_ptr sum_ptr (Some 0) (run_state (Suc 0) (vec (\<lambda>j. 0))) =
         Inr (best_loop (vec (\<lambda>j. 0 + real ITERATIONS * signal_profile j)) 0 DBL_MAX (Some 0),
              run_state (Suc (Suc 0)) (vec (\<lambda>j. 0 + real ITERATIONS * signal_profile j)))"
    using zero_bias_later_attempt [of 0]
    unfolding sum_ptr_def by (intro attempt_run_state) (simp_all add: zero_bias_simps)
  moreover have "best_loop (vec (\<lambda>j. 20 * signal_profile j)) 0 DBL_MAX (Some 0) = Some (of_nat 42)"
    using first_min_signal
    by (rule best_loop_eq) (simp add: NUM_CACHE_LINES_256 DBL_MAX_def signal_profile_def)
  ultimately show ?thesis by (simp add: ITERATIONS_20)
qed

lemma inferb_zero_bias:
  "inferb zero_bias_platform secret_ptr start_state =
   Inr (0, run_state RETRIES_IF_ZERO (vec (\<lambda>j. 20 * biased_profile j + 980 * signal_profile j)))"
proof -
  let ?pf = zero_bias_platform
  let ?s = "(None :: u8 option, run_state 0 (vec (\<lambda>j. 0)))"
  have c: "calloc_doubles ?pf NUM_CACHE_LINES start_state = (sum_ptr, run_state 0 (vec (\<lambda>j. 0)))"
    unfolding sum_ptr_def by (rule calloc_start_state) (simp add: zero_bias_simps)
  have all: "\<forall>j<RETRIES_IF_ZERO. \<exists>st'. attempts ?pf secret_ptr sum_ptr (Suc j) ?s = Inr (Some 0, st')"
    using attempts_zero_bias by blast
  from try_loop_skip [of 0 RETRIES_IF_ZERO ?pf secret_ptr sum_ptr ?s, OF _ all]
  obtain bi' st' where a: "attempts ?pf secret_ptr sum_ptr RETRIES_IF_ZERO ?s = Inr (bi', st')"
    and t: "try_loop ?pf secret_ptr sum_ptr 0 None (run_state 0 (vec (\<lambda>j. 0))) =
            try_loop ?pf secret_ptr sum_ptr RETRIES_IF_ZERO bi' st'"
    by auto
  have r: "RETRIES_IF_ZERO = Suc 49" by (simp add: RETRIES_IF_ZERO_def)
  have "attempts ?pf secret_ptr sum_ptr (Suc 49) ?s =
        Inr (Some 0, run_state (Suc 49)
               (vec (\<lambda>j. 20 * biased_profile j + 20 * real (49 :: nat) * signal_profile j)))"
    by (rule attempts_zero_bias) (simp add: RETRIES_IF_ZERO_def)
  with a have "bi' = Some 0"
    and "st' = run_state RETRIES_IF_ZERO (vec (\<lambda>j. 20 * biased_profile j + 980 * signal_profile j))"
    unfolding r by simp_all
  with t have "try_loop ?pf secret_ptr sum_ptr 0 None (run_state 0 (vec (\<lambda>j. 0))) =
        Inr (Some 0, run_state RETRIES_IF_ZERO
               (vec (\<lambda>j. 20 * biased_profile j + 980 * signal_profile j)))"
    by (simp add: try_loop_done)
  then show ?thesis by (simp add: inferb_def c)
qed

text \<open>
  Claim C1 against the code. On \<open>zero_bias_platform\<close> the secret byte is 42. During
  the first attempt slot 0 is timed at 1 tick and every other slot at 101, so the
  attempt ends with the sums 20 and 2020 and decides 0. From the second attempt on slot
  42 is timed at 1 tick and every other slot at 2. The retry starts from the sums the
  first attempt left, not from zeros: it ends with 60 in slot 0 and 2040 in slot 42 and
  decides 0 again, and so does every later attempt, so that \<open>inferb\<close> returns 0 after
  \<open>RETRIES_IF_ZERO\<close> attempts. The same second attempt made on a vector reset to zero
  ends with 20 in slot 42 and 40 elsewhere and decides 42, the secret byte.
\<close>

theorem inferb_carries_sums_over:
  "load_u8 SecretRead start_state secret_ptr = Inr 42 \<and>
   after_attempts zero_bias_platform secret_ptr start_state 1 =
     Inr (Some 0, run_state 1 (vec (\<lambda>j. 20 * biased_profile j))) \<and>
   load_doubles (run_state 1 (vec (\<lambda>j. 20 * biased_profile j))) sum_ptr NUM_CACHE_LINES =
     Inr (vec (\<lambda>j. 20 * biased_profile j)) \<and>
   vec (\<lambda>j. 20 * biased_profile j) ! 0 = Fin 20 \<and>
   vec (\<lambda>j. 20 * biased_profile j) ! 42 = Fin 2020 \<and>
   after_attempts zero_bias_platform secret_ptr start_state 2 =
     Inr (Some 0, run_state 2 (vec (\<lambda>j. 20 * biased_profile j + 20 * signal_profile j))) \<and>
   vec (\<lambda>j. 20 * biased_profile j + 20 * signal_profile j) ! 0 = Fin 60 \<and>
   vec (\<lambda>j. 20 * biased_profile j + 20 * signal_profile j) ! 42 = Fin 2040 \<and>
   attempt zero_bias_platform secret_ptr sum_ptr (Some 0) (run_state 1 (vec (\<lambda>j. 0))) =
     Inr (Some 42, run_state 2 (vec (\<lambda>j. 20 * signal_profile j))) \<and>
   inferb zero_bias_platform secret_ptr start_state =
     Inr (0, run_state RETRIES_IF_ZERO
               (vec (\<lambda>j. 20 * biased_profile j + 980 * signal_profile j)))"
proof (intro conjI)
  have c: "calloc_doubles zero_bias_platform NUM_CACHE_LINES start_state =
        (sum_ptr, run_state 0 (vec (\<lambda>j. 0)))"
    unfolding sum_ptr_def by (rule calloc_start_state) (simp add: zero_bias_simps)
  have r: "0 < RETRIES_IF_ZERO" "1 < RETRIES_IF_ZERO" by (simp_all add: RETRIES_IF_ZERO_def)
  show "load_u8 SecretRead start_state secret_ptr = Inr 42"
    by (simp add: start_state_readable VALUE_def)
  show "after_attempts zero_bias_platform secret_ptr start_state 1 =
     Inr (Some 0, run_state 1 (vec (\<lambda>j. 20 * biased_profile j)))"
    using attempts_zero_bias [OF r(1)] by (simp add: after_attempts_def c)
  show "load_doubles (run_state 1 (vec (\<lambda>j. 20 * biased_profile j))) sum_ptr NUM_CACHE_LINES =
     Inr (vec (\<lambda>j. 20 * biased_profile j))"
    by (simp add: load_doubles_def run_state_def sum_ptr_def)
  show "vec (\<lambda>j. 20 * biased_profile j) ! 0 = Fin 20"
    and "vec (\<lambda>j. 20 * biased_profile j) ! 42 = Fin 2020"
    and "vec (\<lambda>j. 20 * biased_profile j + 20 * signal_profile j) ! 0 = Fin 60"
    and "vec (\<lambda>j. 20 * biased_profile j + 20 * signal_profile j) ! 42 = Fin 2040"
    by (simp_all add: NUM_CACHE_LINES_256 biased_profile_def signal_profile_def)
  show "after_attempts zero_bias_platform secret_ptr start_state 2 =
     Inr (Some 0, run_state 2 (vec (\<lambda>j. 20 * biased_profile j + 20 * signal_profile j)))"
    using attempts_zero_bias [OF r(2)] by (simp add: after_attempts_def c numeral_2_eq_2)
  show "attempt zero_bias_platform secret_ptr sum_ptr (Some 0) (run_state 1 (vec (\<lambda>j. 0))) =
     Inr (Some 42, run_state 2 (vec (\<lambda>j. 20 * signal_profile j)))"
    using attempt_zero_bias_reset by (simp add: numeral_2_eq_2)
  show "inferb zero_bias_platform secret_ptr start_state =
     Inr (0, run_state RETRIES_IF_ZERO
               (vec (\<lambda>j. 20 * biased_profile j + 980 * signal_profile j)))"
    by (rule inferb_zero_bias)
qed

end
